(* ===== verification/Prelude.thy ===== *)
theory Prelude
  imports Main "HOL-Library.Multiset"
begin

text \<open>
  Shared vocabulary of the development: the Python exceptions the containers can raise,
  Python's \<open>Counter\<close> / \<open>defaultdict(int)\<close> as a total function into \<open>int\<close>, and the
  generic facts on sorted lists and multisets that the component theories use.
\<close>

section \<open>Python exceptions\<close>

text \<open>
  The containers raise \<open>IndexError\<close> when \<open>heapq.heappop\<close>, \<open>heap[0]\<close> or
  \<open>list.pop(i)\<close> meet an empty list or an index out of range, and \<open>RuntimeError\<close> from
  \<open>Container.get_median\<close> on an empty container; the file-storage simulation also
  raises \<open>ValueError\<close> (an unparsable size or TTL).
\<close>

datatype py_error = IndexError | RuntimeError | ValueError

text \<open>
  Sequencing two steps that may raise: the first exception ends the computation, as in
  straight-line Python code.
\<close>

definition py_bind :: "py_error + 'a \<Rightarrow> ('a \<Rightarrow> py_error + 'b) \<Rightarrow> py_error + 'b" where
  "py_bind r f = (case r of Inl e \<Rightarrow> Inl e | Inr x \<Rightarrow> f x)"

lemma py_bind_simps [simp]: "py_bind (Inl e) f = Inl e" "py_bind (Inr x) f = f x"
  by (simp_all add: py_bind_def)

text \<open>\<open>xs[i]\<close> for \<open>i \<ge> 0\<close>: \<open>IndexError\<close> out of range.\<close>

definition nth_py :: "'a list \<Rightarrow> nat \<Rightarrow> py_error + 'a" where
  "nth_py xs i = (if i < length xs then Inr (xs ! i) else Inl IndexError)"

section \<open>Counters\<close>

text \<open>
  A \<open>Counter()\<close> or \<open>defaultdict(int)\<close> read with \<open>c[v]\<close> or \<open>c.get(v, 0)\<close> answers
  0 for a missing key, so it is a total function \<open>int \<Rightarrow> int\<close>; deleting a key whose
  count reached 0 (\<open>del c[v]\<close>) does not change any read. Counts are Python integers: a
  decrement below 0 is not prevented by the data type, only by the code's invariants.
\<close>

type_synonym counter = "int \<Rightarrow> int"

definition counter_empty :: counter where
  "counter_empty = (\<lambda>_. 0)"

text \<open>\<open>c[v] += 1\<close>\<close>

definition counter_inc :: "counter \<Rightarrow> int \<Rightarrow> counter" where
  "counter_inc c v = c(v := c v + 1)"

text \<open>\<open>c[v] -= 1; if c[v] == 0: del c[v]\<close>\<close>

definition counter_dec :: "counter \<Rightarrow> int \<Rightarrow> counter" where
  "counter_dec c v = c(v := c v - 1)"

named_theorems counter_simps "evaluation rules of the counter operations"

lemma counter_empty_apply [simp, counter_simps]: "counter_empty v = 0"
  by (simp add: counter_empty_def)

lemma counter_inc_apply [simp, counter_simps]:
  "counter_inc c v w = (if w = v then c v + 1 else c w)"
  by (simp add: counter_inc_def)

lemma counter_dec_apply [simp, counter_simps]:
  "counter_dec c v w = (if w = v then c v - 1 else c w)"
  by (simp add: counter_dec_def)

section \<open>Sorted lists and multisets\<close>

text \<open>A sorted list with the elements of \<open>M\<close> is the sorted list of \<open>M\<close>.\<close>

lemma sorted_list_of_multiset_eqI:
  assumes "mset xs = M" and "sorted xs"
  shows "sorted_list_of_multiset M = xs"
proof -
  have "sorted_list_of_multiset M = sort xs"
    using assms(1) by (metis sorted_list_of_multiset_mset)
  also have "\<dots> = xs"
    using assms(2) by (rule sorted_sort_id)
  finally show ?thesis .
qed

text \<open>
  Two multisets separated by order sort to the concatenation of their sorted lists:
  the fact behind the two-heap median.
\<close>

lemma sorted_list_of_multiset_split:
  assumes "\<forall>x\<in>#L. \<forall>y\<in>#H. x \<le> y"
  shows "sorted_list_of_multiset (L + H) = sorted_list_of_multiset L @ sorted_list_of_multiset H"
  using assms by (intro sorted_list_of_multiset_eqI) (auto simp: sorted_append)

lemma sorted_le_last:
  assumes "sorted xs" and "y \<in> set xs"
  shows "y \<le> last xs"
proof -
  have ne: "xs \<noteq> []" using assms(2) by auto
  then have "xs = butlast xs @ [last xs]" by simp
  then have "sorted (butlast xs @ [last xs])" using assms(1) by simp
  then have "\<forall>x\<in>set (butlast xs). x \<le> last xs" by (simp add: sorted_append)
  moreover have "y \<in> set (butlast xs) \<or> y = last xs"
    using assms(2) ne by (metis in_set_butlast_appendI append_butlast_last_id
        rotate1.simps(2) set_rotate1 set_ConsD)
  ultimately show ?thesis by auto
qed

lemma last_sorted_list_of_multiset:
  assumes "L \<noteq> {#}"
  shows "last (sorted_list_of_multiset L) = Max_mset L"
proof -
  let ?xs = "sorted_list_of_multiset L"
  have ne: "?xs \<noteq> []" using assms
    by (metis mset_sorted_list_of_multiset mset_zero_iff)
  have "last ?xs \<in># L" using ne
    by (metis last_in_set set_sorted_list_of_multiset)
  moreover have "\<forall>y\<in>#L. y \<le> last ?xs"
    by (metis sorted_le_last sorted_sorted_list_of_multiset set_sorted_list_of_multiset)
  ultimately show ?thesis
    using assms by (intro sym [OF Max_eqI]) auto
qed

lemma size_remove1_int:
  assumes "v \<in># M"
  shows "int (size (M - {#v#})) = int (size M) - 1"
proof -
  have "1 \<le> size M" using assms
    by (metis Suc_le_eq empty_iff nonempty_has_size set_mset_empty One_nat_def)
  then show ?thesis using assms by (simp add: size_Diff_singleton of_nat_diff)
qed

end
