(* ===== verification/Median_Spec.thy ===== *)
theory Median_Spec
  imports Prelude
begin

text \<open>
  The abstract specification both containers are measured against. The state is the
  multiset of stored integers; the median is the element at 0-based position
  \<open>(n - 1) div 2\<close> of the sorted elements (the left of the two middle elements when
  \<open>n\<close> is even). A caller drives a container with a list of operations
  (the \<open>op\<close> datatype); \<open>run_steps\<close> replays such a list against any step function,
  stopping at the first exception, and \<open>run_steps_simulation\<close> transfers a one-step
  simulation to whole runs. This is the interface on which the two implementations and
  the specification agree. \<open>iface_default_step\<close> is the class body of
  \<open>IntegerContainer\<close> itself, whose default methods meet the contract only on call
  sequences without \<open>add\<close> (C25).
\<close>

section \<open>Operations and answers\<close>

datatype op = Add int | Delete int | GetMedian

text \<open>
  \<open>Size n\<close> is the integer returned by \<open>IntegerContainerImpl.add\<close>, \<open>Removed b\<close> the
  boolean of \<open>delete\<close>, \<open>Median r\<close> the result of \<open>get_median\<close> (\<open>None\<close> for Python's
  \<open>None\<close>), and \<open>NoValue\<close> the \<open>None\<close> that \<open>Container.add\<close> returns.
\<close>

datatype answer = Size int | Removed bool | Median "int option" | NoValue

section \<open>The median of a multiset\<close>

definition median_of :: "int multiset \<Rightarrow> int option" where
  "median_of M =
     (if M = {#} then None
      else Some (sorted_list_of_multiset M ! ((size M - 1) div 2)))"

section \<open>The contract of the \<open>IntegerContainer\<close> interface\<close>

text \<open>
  The docstrings of \<open>integer_container.py\<close>: \<open>add\<close> returns the number of integers
  after the addition, \<open>delete\<close> removes one occurrence and says whether there was one,
  \<open>get_median\<close> returns the median or \<open>None\<close> when the container is empty.
\<close>

fun iface_step :: "int multiset \<Rightarrow> op \<Rightarrow> answer \<times> int multiset" where
  "iface_step M (Add v) = (Size (int (size M + 1)), add_mset v M)"
| "iface_step M (Delete v) =
     (if v \<in># M then (Removed True, M - {#v#}) else (Removed False, M))"
| "iface_step M GetMedian = (Median (median_of M), M)"

text \<open>
  The bodies of \<open>IntegerContainer\<close> itself, marked "default implementation": they
  keep no state, and \<open>add\<close> returns 0, \<open>delete\<close> \<open>False\<close> and \<open>get_median\<close>
  \<open>None\<close> whatever was called before.
\<close>

fun iface_default_step :: "unit \<Rightarrow> op \<Rightarrow> py_error + (answer \<times> unit)" where
  "iface_default_step u (Add v) = Inr (Size 0, u)"
| "iface_default_step u (Delete v) = Inr (Removed False, u)"
| "iface_default_step u GetMedian = Inr (Median None, u)"

text \<open>
  The contract stated in the docstrings of \<open>container.py\<close>: \<open>add\<close> returns nothing,
  \<open>delete\<close> as above, \<open>get_median\<close> raises a runtime exception on an empty container.
\<close>

fun container_spec_step :: "int multiset \<Rightarrow> op \<Rightarrow> py_error + (answer \<times> int multiset)" where
  "container_spec_step M (Add v) = Inr (NoValue, add_mset v M)"
| "container_spec_step M (Delete v) =
     Inr (if v \<in># M then (Removed True, M - {#v#}) else (Removed False, M))"
| "container_spec_step M GetMedian =
     (if M = {#} then Inl RuntimeError else Inr (Median (median_of M), M))"

section \<open>Running a list of operations\<close>

text \<open>
  A caller (a test case of \<open>level_2_tests.py\<close>) issues the operations in order; an
  exception ends the sequence.
\<close>

fun run_steps ::
  "('s \<Rightarrow> op \<Rightarrow> py_error + (answer \<times> 's)) \<Rightarrow> 's \<Rightarrow> op list \<Rightarrow> py_error + answer list" where
  "run_steps step s [] = Inr []"
| "run_steps step s (o1 # ops) =
     (case step s o1 of
        Inl e \<Rightarrow> Inl e
      | Inr (a, s') \<Rightarrow>
          (case run_steps step s' ops of Inl e \<Rightarrow> Inl e | Inr as \<Rightarrow> Inr (a # as)))"

definition total_step :: "('s \<Rightarrow> op \<Rightarrow> answer \<times> 's) \<Rightarrow> 's \<Rightarrow> op \<Rightarrow> py_error + (answer \<times> 's)" where
  "total_step f s o1 = Inr (f s o1)"

abbreviation iface_run :: "int multiset \<Rightarrow> op list \<Rightarrow> py_error + answer list" where
  "iface_run \<equiv> run_steps (total_step iface_step)"

abbreviation container_spec_run :: "int multiset \<Rightarrow> op list \<Rightarrow> py_error + answer list" where
  "container_spec_run \<equiv> run_steps container_spec_step"

text \<open>
  A relation between the states of two step functions is a simulation when related
  states give the same exception or the same answer and related successor states.
\<close>

definition step_sim ::
  "('s \<Rightarrow> 't \<Rightarrow> bool) \<Rightarrow> ('s \<Rightarrow> op \<Rightarrow> py_error + (answer \<times> 's))
     \<Rightarrow> ('t \<Rightarrow> op \<Rightarrow> py_error + (answer \<times> 't)) \<Rightarrow> bool" where
  "step_sim R f g \<longleftrightarrow>
     (\<forall>s t o1. R s t \<longrightarrow>
        rel_sum (=) (\<lambda>(a, s') (b, t'). a = b \<and> R s' t') (f s o1) (g t o1))"

text \<open>
  What \<open>Container\<close> answers where \<open>IntegerContainerImpl\<close> answers \<open>a\<close>: its
  \<open>add\<close> returns \<open>None\<close> instead of the size.
\<close>

fun container_view :: "answer \<Rightarrow> answer" where
  "container_view (Size n) = NoValue"
| "container_view a = a"

lemma run_steps_simulation:
  assumes "step_sim R f g" and "R s t"
  shows "run_steps f s ops = run_steps g t ops"
  using assms(2)
proof (induction ops arbitrary: s t)
  case Nil
  then show ?case by simp
next
  case (Cons o1 ops)
  have "rel_sum (=) (\<lambda>(a, s') (b, t'). a = b \<and> R s' t') (f s o1) (g t o1)"
    using assms(1) Cons.prems by (simp add: step_sim_def)
  then show ?case
    using Cons.IH by (cases "f s o1"; cases "g t o1") (auto simp: rel_sum.simps)
qed

text \<open>A step function that never raises gives runs that never raise.\<close>

lemma run_steps_total [simp]: "run_steps (\<lambda>s o1. Inr (f s o1)) s ops \<noteq> Inl e"
  by (induction ops arbitrary: s) (auto split: sum.splits prod.splits)

section \<open>Facts about the median\<close>

text \<open>
  When \<open>L\<close> holds the smaller half (with the extra element when the size is odd) and
  every element of \<open>L\<close> is at most every element of \<open>H\<close>, the median is the largest
  element of \<open>L\<close>: the invariant of the two-heap container.
\<close>

lemma median_of_split:
  assumes order: "\<forall>x\<in>#L. \<forall>y\<in>#H. x \<le> y"
    and bal: "size H \<le> size L" "size L \<le> size H + 1"
    and ne: "L \<noteq> {#}"
  shows "median_of (L + H) = Some (Max_mset L)"
proof -
  let ?xs = "sorted_list_of_multiset L" and ?ys = "sorted_list_of_multiset H"
  have len: "length ?xs = size L" "length ?ys = size H"
    by (metis size_mset mset_sorted_list_of_multiset)+
  have pos: "0 < size L" using ne by (simp add: nonempty_has_size)
  have idx: "(size (L + H) - 1) div 2 = size L - 1"
    using bal pos by simp
  have "sorted_list_of_multiset (L + H) ! (size L - 1) = ?xs ! (size L - 1)"
    using order pos len by (simp add: sorted_list_of_multiset_split nth_append)
  also have "\<dots> = last ?xs"
    using pos len by (subst last_conv_nth) auto
  also have "\<dots> = Max_mset L"
    using ne by (rule last_sorted_list_of_multiset)
  finally show ?thesis
    using ne idx by (simp add: median_of_def)
qed

section \<open>The default bodies and the contract\<close>

text \<open>
  C25: the default bodies of \<open>IntegerContainer\<close> answer as its contract requires on
  exactly the call sequences that never add: the first \<open>add\<close> returns 0 where the
  contract returns 1.
\<close>

theorem iface_defaults_meet_contract_iff:
  "run_steps iface_default_step () ops = iface_run {#} ops \<longleftrightarrow> (\<forall>v. Add v \<notin> set ops)"
proof (induction ops)
  case Nil
  then show ?case by simp
next
  case (Cons o1 ops)
  then show ?case
    by (cases o1) (auto simp: total_step_def median_of_def split: sum.splits)
qed

theorem iface_defaults_meet_contract_iff_witness:
  "run_steps iface_default_step () [Delete 3, GetMedian] = iface_run {#} [Delete 3, GetMedian]
   \<and> run_steps iface_default_step () [GetMedian, Add 3] \<noteq> iface_run {#} [GetMedian, Add 3]"
  using iface_defaults_meet_contract_iff [of "[Delete 3, GetMedian]"]
    iface_defaults_meet_contract_iff [of "[GetMedian, Add 3]"] by simp

end
