(* ===== verification/Sorted_Container.thy ===== *)
theory Sorted_Container
  imports Median_Spec
begin

text \<open>
  \<open>IntegerContainerImpl\<close> (\<open>progressive_filesystem/integer_container_impl.py\<close>): a
  count per value (\<open>_counts\<close>), the number of stored integers (\<open>_size\<close>) and the sorted
  list of distinct stored values (\<open>_keys\<close>), kept sorted with \<open>bisect.insort\<close> and
  \<open>bisect_left\<close>. The median is found by walking \<open>_keys\<close> and accumulating counts until
  the running total passes \<open>(size - 1) // 2\<close>. The theory models the binary search of
  the \<open>bisect\<close> module and \<open>list.pop\<close>, the three methods, the relation
  \<open>impl_rel\<close> between a state and the multiset it stores, and proves that every method
  keeps the relation and answers as the interface contract \<open>iface_step\<close> says.
\<close>

section \<open>Library calls: \<open>bisect\<close> and \<open>list.pop\<close>\<close>

text \<open>
  \<open>bisect_left(a, x)\<close> and \<open>bisect_right(a, x)\<close> are the binary search of CPython's
  \<open>Lib/bisect.py\<close> on the half-open range \<open>[lo, hi)\<close>, from \<open>lo = 0\<close> and
  \<open>hi = len(a)\<close>: \<open>bisect_left\<close> moves \<open>lo\<close> to \<open>mid + 1\<close> when \<open>a[mid] < x\<close>,
  \<open>bisect_right\<close> when \<open>not x < a[mid]\<close>, and each sets \<open>hi = mid\<close> otherwise.
  \<open>bisect_loop\<close> is that loop with the comparison as a parameter. Inside the loop
  \<open>lo \<le> mid < hi \<le> len(a)\<close>, so \<open>a[mid]\<close> never raises. \<open>insort(a, x)\<close> is
  \<open>insort_right\<close>: \<open>a.insert(bisect_right(a, x), x)\<close>.
\<close>

function bisect_loop :: "(int \<Rightarrow> bool) \<Rightarrow> int list \<Rightarrow> nat \<Rightarrow> nat \<Rightarrow> nat" where
  "bisect_loop go_right a lo hi =
     (if lo < hi then
        (let mid = (lo + hi) div 2
         in if go_right (a ! mid) then bisect_loop go_right a (mid + 1) hi
            else bisect_loop go_right a lo mid)
      else lo)"
  by pat_completeness auto
termination by (relation "measure (\<lambda>(go_right, a, lo, hi). hi - lo)") auto

declare bisect_loop.simps [simp del]

definition bisect_left :: "int list \<Rightarrow> int \<Rightarrow> nat" where
  "bisect_left a x = bisect_loop (\<lambda>y. y < x) a 0 (length a)"

definition bisect_right :: "int list \<Rightarrow> int \<Rightarrow> nat" where
  "bisect_right a x = bisect_loop (\<lambda>y. \<not> x < y) a 0 (length a)"

definition insort_right :: "int list \<Rightarrow> int \<Rightarrow> int list" where
  "insort_right xs x = (let i = bisect_right xs x in take i xs @ x # drop i xs)"

text \<open>\<open>a.pop(i)\<close> for \<open>i \<ge> 0\<close>: removes the element at \<open>i\<close>, \<open>IndexError\<close> out of range.\<close>

definition list_pop :: "'a list \<Rightarrow> nat \<Rightarrow> py_error + 'a list" where
  "list_pop xs i = (if i < length xs then Inr (take i xs @ drop (Suc i) xs) else Inl IndexError)"

section \<open>State and methods\<close>

record impl_state =
  counts :: counter
  impl_size :: int
  keys :: "int list"

definition impl_init :: impl_state where
  "impl_init = \<lparr>counts = counter_empty, impl_size = 0, keys = []\<rparr>"

definition impl_add :: "impl_state \<Rightarrow> int \<Rightarrow> int \<times> impl_state" where
  "impl_add s v =
     (let s1 = (if counts s v = 0 then s\<lparr>keys := insort_right (keys s) v\<rparr> else s);
          s2 = s1\<lparr>counts := counter_inc (counts s1) v, impl_size := impl_size s1 + 1\<rparr>
      in (impl_size s2, s2))"

definition impl_delete :: "impl_state \<Rightarrow> int \<Rightarrow> py_error + (bool \<times> impl_state)" where
  "impl_delete s v =
     (if counts s v = 0 then Inr (False, s)
      else
        let s1 = s\<lparr>counts := counter_dec (counts s) v, impl_size := impl_size s - 1\<rparr>
        in if counts s1 v = 0 then
             (case list_pop (keys s1) (bisect_left (keys s1) v) of
                Inl e \<Rightarrow> Inl e
              | Inr ks \<Rightarrow> Inr (True, s1\<lparr>keys := ks\<rparr>))
           else Inr (True, s1))"

text \<open>The loop of \<open>get_median\<close>: \<open>running\<close> accumulates the counts of \<open>_keys\<close>.\<close>

fun median_scan :: "counter \<Rightarrow> int \<Rightarrow> int \<Rightarrow> int list \<Rightarrow> int option" where
  "median_scan c target running [] = None"
| "median_scan c target running (val # vs) =
     (let running' = running + c val
      in if running' > target then Some val else median_scan c target running' vs)"

definition impl_get_median :: "impl_state \<Rightarrow> int option" where
  "impl_get_median s =
     (if impl_size s = 0 then None
      else median_scan (counts s) ((impl_size s - 1) div 2) 0 (keys s))"

fun impl_step :: "impl_state \<Rightarrow> op \<Rightarrow> py_error + (answer \<times> impl_state)" where
  "impl_step s (Add v) = (case impl_add s v of (n, s') \<Rightarrow> Inr (Size n, s'))"
| "impl_step s (Delete v) =
     (case impl_delete s v of Inl e \<Rightarrow> Inl e | Inr (b, s') \<Rightarrow> Inr (Removed b, s'))"
| "impl_step s GetMedian = Inr (Median (impl_get_median s), s)"

section \<open>The abstraction\<close>

text \<open>
  A state stores the multiset \<open>M\<close> when \<open>_keys\<close> is the sorted list of the distinct
  elements of \<open>M\<close>, \<open>_counts\<close> gives each value its multiplicity and \<open>_size\<close> is the
  size of \<open>M\<close>.
\<close>

definition impl_rel :: "impl_state \<Rightarrow> int multiset \<Rightarrow> bool" where
  "impl_rel s M \<longleftrightarrow>
     sorted (keys s) \<and> distinct (keys s) \<and> set (keys s) = set_mset M
     \<and> (\<forall>v. counts s v = int (count M v)) \<and> impl_size s = int (size M)"

text \<open>The list the counts describe: each key repeated by its count, in key order.\<close>

definition expand :: "counter \<Rightarrow> int list \<Rightarrow> int list" where
  "expand c ks = concat (map (\<lambda>k. replicate (nat (c k)) k) ks)"

text \<open>
  The well-formedness of a state on its own, without naming the multiset: \<open>_keys\<close>
  sorted and duplicate-free, holding exactly the values of positive count, no count
  negative, and \<open>_size\<close> the sum of the counts.
\<close>

definition impl_wf :: "impl_state \<Rightarrow> bool" where
  "impl_wf s \<longleftrightarrow>
     sorted (keys s) \<and> distinct (keys s) \<and> (\<forall>v. 0 \<le> counts s v)
     \<and> (\<forall>v. v \<in> set (keys s) \<longleftrightarrow> 0 < counts s v)
     \<and> impl_size s = sum_list (map (counts s) (keys s))"

section \<open>Facts about the library calls\<close>

text \<open>
  On a sorted list the binary search for a comparison closed downwards finds the
  length of the prefix it holds on: the invariant is that it holds below \<open>lo\<close> and
  fails from \<open>hi\<close> on.
\<close>

lemma bisect_loop_takeWhile:
  shows "sorted a \<Longrightarrow> (\<And>y z. P y \<Longrightarrow> z \<le> y \<Longrightarrow> P z) \<Longrightarrow> lo \<le> hi \<Longrightarrow> hi \<le> length a \<Longrightarrow> \<forall>i<lo. P (a ! i)
           \<Longrightarrow> \<forall>i. hi \<le> i \<and> i < length a \<longrightarrow> \<not> P (a ! i)
           \<Longrightarrow> bisect_loop P a lo hi = length (takeWhile P a)"
proof (induction P a lo hi rule: bisect_loop.induct)
  case (1 P' a' lo hi)
  show ?case
  proof (cases "lo < hi")
    case True
    define mid where "mid = (lo + hi) div 2"
    have mid: "lo \<le> mid" "mid < hi" "mid < length a'" using True 1(6) by (simp_all add: mid_def)
    show ?thesis
    proof (cases "P' (a' ! mid)")
      case go: True
      have "bisect_loop P' a' lo hi = bisect_loop P' a' (mid + 1) hi"
        using True go by (simp add: bisect_loop.simps [of P' a' lo hi] Let_def flip: mid_def)
      also have "\<dots> = length (takeWhile P' a')"
      proof (rule 1(1) [OF True mid_def go])
        show "\<forall>i<mid + 1. P' (a' ! i)"
        proof (intro allI impI)
          fix i assume "i < mid + 1"
          then have "a' ! i \<le> a' ! mid" using mid sorted_nth_mono [OF 1(3)] by simp
          then show "P' (a' ! i)" using go 1(4) by blast
        qed
      qed (use mid 1(3,4,6,8) in auto)
      finally show ?thesis .
    next
      case stop: False
      have "bisect_loop P' a' lo hi = bisect_loop P' a' lo mid"
        using True stop by (simp add: bisect_loop.simps [of P' a' lo hi] Let_def flip: mid_def)
      also have "\<dots> = length (takeWhile P' a')"
      proof (rule 1(2) [OF True mid_def stop])
        show "\<forall>i. mid \<le> i \<and> i < length a' \<longrightarrow> \<not> P' (a' ! i)"
        proof (intro allI impI)
          fix i assume i: "mid \<le> i \<and> i < length a'"
          then have "a' ! mid \<le> a' ! i" using sorted_nth_mono [OF 1(3)] by simp
          then show "\<not> P' (a' ! i)" using stop 1(4) by blast
        qed
      qed (use mid 1(3,4,6,7) in auto)
      finally show ?thesis .
    qed
  next
    case False
    then have eq: "lo = hi" using 1(5) by simp
    have "takeWhile P' a' = take lo a'"
      using 1(7,8) eq by (intro takeWhile_eq_take_P_nth) auto
    moreover have "bisect_loop P' a' lo hi = lo"
      using False by (simp add: bisect_loop.simps [of P' a' lo hi])
    ultimately show ?thesis using 1(6) eq by simp
  qed
qed

lemma bisect_left_sorted: "sorted a \<Longrightarrow> bisect_left a x = length (takeWhile (\<lambda>y. y < x) a)"
  unfolding bisect_left_def by (rule bisect_loop_takeWhile) auto

lemma bisect_right_sorted: "sorted a \<Longrightarrow> bisect_right a x = length (takeWhile (\<lambda>y. \<not> x < y) a)"
  unfolding bisect_right_def by (rule bisect_loop_takeWhile) auto

lemma mset_insort_right [simp]: "mset (insort_right xs x) = add_mset x (mset xs)"
proof -
  have "mset (take i xs @ x # drop i xs) = add_mset x (mset xs)" for i
    by (metis append_take_drop_id mset.simps(2) mset_append union_mset_add_mset_right)
  then show ?thesis by (simp add: insort_right_def Let_def)
qed

lemma set_insort_right [simp]: "set (insort_right xs x) = insert x (set xs)"
  by (metis mset_insort_right set_mset_add_mset_insert set_mset_mset)

lemma insort_right_insort:
  assumes "sorted xs"
  shows "insort_right xs x = insort x xs"
proof -
  have "take (length (takeWhile (\<lambda>y. \<not> x < y) xs)) xs @ x # drop (length (takeWhile (\<lambda>y. \<not> x < y) xs)) xs
          = insort x xs"
    using assms by (induction xs) (auto simp: insort_is_Cons)
  then show ?thesis using assms by (simp add: insort_right_def bisect_right_sorted)
qed

lemma sorted_insort_right: "sorted xs \<Longrightarrow> sorted (insort_right xs x)"
  by (simp add: insort_right_insort sorted_insort)

lemma distinct_insort_right: "distinct xs \<Longrightarrow> x \<notin> set xs \<Longrightarrow> distinct (insort_right xs x)"
  by (metis distinct.simps(2) mset.simps(2) mset_eq_imp_distinct_iff mset_insort_right)

text \<open>Popping at \<open>bisect_left\<close> removes the value itself when it is in the sorted list.\<close>

lemma list_pop_takeWhile:
  assumes "sorted xs" and "x \<in> set xs"
  shows "list_pop xs (length (takeWhile (\<lambda>y. y < x) xs)) = Inr (remove1 x xs)"
  using assms
proof (induction xs)
  case Nil
  then show ?case by simp
next
  case (Cons y ys)
  show ?case
  proof (cases "y < x")
    case True
    then have "x \<in> set ys" using Cons.prems by auto
    then have "list_pop ys (length (takeWhile (\<lambda>y. y < x) ys)) = Inr (remove1 x ys)"
      using Cons by simp
    with True show ?thesis by (auto simp: list_pop_def split: if_splits)
  next
    case False
    then have "y = x" using Cons.prems by auto
    then show ?thesis by (simp add: list_pop_def)
  qed
qed

lemma list_pop_bisect_left:
  "sorted xs \<Longrightarrow> x \<in> set xs \<Longrightarrow> list_pop xs (bisect_left xs x) = Inr (remove1 x xs)"
  by (simp add: bisect_left_sorted list_pop_takeWhile)

section \<open>The median scan computes a sorted index\<close>

lemma expand_Cons [simp]: "expand c (k # ks) = replicate (nat (c k)) k @ expand c ks"
  by (simp add: expand_def)

lemma expand_Nil [simp]: "expand c [] = []"
  by (simp add: expand_def)

lemma count_mset_expand:
  "distinct ks \<Longrightarrow> count (mset (expand c ks)) v = (if v \<in> set ks then nat (c v) else 0)"
  by (induction ks) (auto simp: count_mset count_list_0_iff)

lemma sorted_expand: "sorted ks \<Longrightarrow> sorted (expand c ks)"
proof (induction ks)
  case Nil
  then show ?case by simp
next
  case (Cons k ks)
  have "\<forall>y\<in>set (expand c ks). k \<le> y"
    using Cons.prems by (auto simp: expand_def)
  with Cons show ?case by (auto simp: sorted_append)
qed

lemma expand_sorted_list_of_multiset:
  assumes "impl_rel s M"
  shows "expand (counts s) (keys s) = sorted_list_of_multiset M"
proof (rule sym, rule sorted_list_of_multiset_eqI)
  show "mset (expand (counts s) (keys s)) = M"
    using assms by (intro multiset_eqI) (auto simp: impl_rel_def count_mset_expand not_in_iff)
  show "sorted (expand (counts s) (keys s))"
    using assms by (simp add: impl_rel_def sorted_expand)
qed

text \<open>
  The loop of \<open>get_median\<close> against its reference: walking the keys with a running
  total returns the element at position \<open>target - running\<close> of the expanded list.
\<close>

lemma median_scan_expand:
  assumes "\<forall>k\<in>set ks. 0 \<le> c k" and "0 \<le> r" and "r \<le> t"
  shows "median_scan c t r ks =
           (if nat (t - r) < length (expand c ks) then Some (expand c ks ! nat (t - r)) else None)"
  using assms
proof (induction ks arbitrary: r)
  case Nil
  then show ?case by simp
next
  case (Cons k ks)
  let ?n = "nat (c k)"
  show ?case
  proof (cases "r + c k > t")
    case True
    then have "nat (t - r) < ?n" using Cons.prems by linarith
    with True show ?thesis by (simp add: nth_append)
  next
    case False
    then have ih: "median_scan c t (r + c k) ks =
      (if nat (t - (r + c k)) < length (expand c ks)
       then Some (expand c ks ! nat (t - (r + c k))) else None)"
      using Cons by simp
    have "nat (t - r) = ?n + nat (t - (r + c k))"
      using False Cons.prems by (simp add: nat_add_distrib [symmetric])
    with False ih show ?thesis by (simp add: nth_append)
  qed
qed

section \<open>Each method refines the interface contract\<close>

lemma impl_rel_init: "impl_rel impl_init {#}"
  by (simp add: impl_rel_def impl_init_def)

lemma impl_rel_count_zero:
  "impl_rel s M \<Longrightarrow> counts s v = 0 \<longleftrightarrow> v \<notin># M"
  by (simp add: impl_rel_def not_in_iff)

lemma impl_add_rel:
  assumes "impl_rel s M"
  shows "impl_add s v = (int (size M) + 1, snd (impl_add s v))"
    and "impl_rel (snd (impl_add s v)) (add_mset v M)"
proof -
  have r: "sorted (keys s)" "distinct (keys s)" "set (keys s) = set_mset M"
      "\<forall>w. counts s w = int (count M w)" "impl_size s = int (size M)"
    using assms by (simp_all add: impl_rel_def)
  show "impl_add s v = (int (size M) + 1, snd (impl_add s v))"
    using r by (simp add: impl_add_def Let_def)
  show "impl_rel (snd (impl_add s v)) (add_mset v M)"
  proof (cases "counts s v = 0")
    case True
    then have "v \<notin> set (keys s)" using r by (simp add: not_in_iff)
    with True r show ?thesis
      by (simp add: impl_add_def impl_rel_def sorted_insort_right distinct_insort_right)
  next
    case False
    then have v: "v \<in># M" using r by (simp add: not_in_iff)
    have "snd (impl_add s v) =
            s\<lparr>counts := counter_inc (counts s) v, impl_size := impl_size s + 1\<rparr>"
      using False by (simp add: impl_add_def)
    with v r show ?thesis
      by (auto simp: impl_rel_def)
  qed
qed

lemma set_mset_remove_last:
  assumes "count M v = 1"
  shows "set_mset (M - {#v#}) = set_mset M - {v}"
proof (rule set_eqI)
  fix x
  show "x \<in># M - {#v#} \<longleftrightarrow> x \<in> set_mset M - {v}"
    using assms by (cases "x = v")
      (simp_all add: in_diff_count count_eq_zero_iff [symmetric] flip: count_greater_zero_iff)
qed

lemma set_mset_remove_more:
  assumes "1 < count M v"
  shows "set_mset (M - {#v#}) = set_mset M"
proof (rule set_eqI)
  fix x
  show "x \<in># M - {#v#} \<longleftrightarrow> x \<in># M"
    using assms by (cases "x = v") (simp_all add: in_diff_count flip: count_greater_zero_iff)
qed

lemma impl_delete_present:
  assumes rel: "impl_rel s M" and v: "v \<in># M"
  shows "\<exists>s'. impl_delete s v = Inr (True, s') \<and> impl_rel s' (M - {#v#})"
proof -
  have r: "sorted (keys s)" "distinct (keys s)" "set (keys s) = set_mset M"
      "\<forall>w. counts s w = int (count M w)" "impl_size s = int (size M)"
    using rel by (simp_all add: impl_rel_def)
  have c: "counts s v = int (count M v)" "0 < count M v"
    using r v by auto
  have sz: "int (size (M - {#v#})) = int (size M) - 1"
    using v by (rule size_remove1_int)
  show ?thesis
  proof (cases "count M v = 1")
    case True
    have pop: "list_pop (keys s) (bisect_left (keys s) v) = Inr (remove1 v (keys s))"
      using r v by (simp add: list_pop_bisect_left)
    have "impl_rel (s\<lparr>counts := counter_dec (counts s) v, impl_size := impl_size s - 1,
                    keys := remove1 v (keys s)\<rparr>) (M - {#v#})"
      using r True sz by (simp add: impl_rel_def sorted_remove1 set_mset_remove_last)
    then show ?thesis
      using c True pop by (simp add: impl_delete_def)
  next
    case False
    then have "1 < count M v" using c(2) by arith
    then have "impl_rel (s\<lparr>counts := counter_dec (counts s) v, impl_size := impl_size s - 1\<rparr>)
                 (M - {#v#})"
      using r sz by (simp add: impl_rel_def set_mset_remove_more)
    then show ?thesis
      using c False by (simp add: impl_delete_def)
  qed
qed

lemma impl_delete_absent:
  assumes "impl_rel s M" and "v \<notin># M"
  shows "impl_delete s v = Inr (False, s)"
  using assms by (simp add: impl_delete_def impl_rel_count_zero)

lemma impl_size_zero: "impl_rel s M \<Longrightarrow> impl_size s = 0 \<longleftrightarrow> M = {#}"
  by (simp add: impl_rel_def)

lemma median_scan_keys:
  assumes rel: "impl_rel s M" and ne: "M \<noteq> {#}"
  shows "median_scan (counts s) ((impl_size s - 1) div 2) 0 (keys s) = median_of M"
proof -
  let ?t = "(impl_size s - 1) div 2"
  have pos: "0 < size M" using ne by (simp add: nonempty_has_size)
  have t: "?t = int ((size M - 1) div 2)"
    using rel pos by (simp add: impl_rel_def zdiv_int of_nat_diff)
  have nonneg: "\<forall>k\<in>set (keys s). 0 \<le> counts s k"
    using rel by (simp add: impl_rel_def)
  have len: "length (sorted_list_of_multiset M) = size M"
    by (metis size_mset mset_sorted_list_of_multiset)
  have "median_scan (counts s) ?t 0 (keys s) =
          (if nat ?t < length (expand (counts s) (keys s))
           then Some (expand (counts s) (keys s) ! nat ?t) else None)"
    using median_scan_expand [of "keys s" "counts s" 0 ?t] nonneg t by simp
  also have "\<dots> = median_of M"
    using rel ne pos t len by (simp add: expand_sorted_list_of_multiset median_of_def)
  finally show ?thesis .
qed

lemma impl_step_sim: "step_sim impl_rel impl_step (total_step iface_step)"
  unfolding step_sim_def
proof (intro allI impI)
  fix s M o1
  assume rel: "impl_rel s M"
  show "rel_sum (=) (\<lambda>(a, s') (b, t'). a = b \<and> impl_rel s' t')
          (impl_step s o1) (total_step iface_step M o1)"
  proof (cases o1)
    case (Add v)
    then show ?thesis
      using impl_add_rel [OF rel, of v]
      by (cases "impl_add s v") (simp add: total_step_def rel_sum.simps)
  next
    case (Delete v)
    show ?thesis
    proof (cases "v \<in># M")
      case True
      then obtain s' where "impl_delete s v = Inr (True, s')" "impl_rel s' (M - {#v#})"
        using impl_delete_present [OF rel] by blast
      with Delete True show ?thesis by (simp add: total_step_def rel_sum.simps)
    next
      case False
      with Delete rel show ?thesis
        by (simp add: total_step_def rel_sum.simps impl_delete_absent)
    qed
  next
    case GetMedian
    have "impl_get_median s = median_of M"
      using rel median_scan_keys [OF rel]
      by (cases "M = {#}") (simp_all add: impl_get_median_def impl_size_zero median_of_def)
    with GetMedian rel show ?thesis by (simp add: total_step_def rel_sum.simps)
  qed
qed

section \<open>Properties\<close>

text \<open>
  C2: \<open>IntegerContainerImpl\<close> refines the interface contract. For every sequence
  of operations, running it from a fresh \<open>IntegerContainerImpl()\<close> gives exactly the
  answers of the multiset specification: \<open>add\<close> returns the new size, \<open>delete\<close>
  returns whether the value was present, \<open>get_median\<close> the lower median or \<open>None\<close>,
  and no exception is ever raised.
\<close>

theorem impl_refines_iface: "run_steps impl_step impl_init ops = iface_run {#} ops"
  by (rule run_steps_simulation [OF impl_step_sim impl_rel_init])

text \<open>
  C4: the cumulative-count scan of \<open>get_median\<close> returns the element at sorted
  position \<open>(n - 1) div 2\<close> of the stored multiset, and \<open>None\<close> exactly when it is
  empty.
\<close>

theorem impl_get_median_correct:
  assumes "impl_rel s M"
  shows "impl_get_median s = median_of M"
  using assms median_scan_keys [OF assms]
  by (cases "M = {#}") (simp_all add: impl_get_median_def impl_size_zero median_of_def)

theorem impl_get_median_correct_witness:
  "impl_get_median (snd (impl_add (snd (impl_add impl_init 3)) 1)) = Some 1"
proof -
  have "impl_rel (snd (impl_add (snd (impl_add impl_init 3)) 1)) (add_mset 1 (add_mset 3 {#}))"
    by (intro impl_add_rel(2) impl_rel_init)
  then have "impl_get_median (snd (impl_add (snd (impl_add impl_init 3)) 1))
               = median_of (add_mset 1 (add_mset 3 {#}))"
    by (rule impl_get_median_correct)
  then show ?thesis by (simp add: median_of_def)
qed

text \<open>
  C6: \<open>delete\<close> never raises: on a value present in the container it removes one
  occurrence and returns \<open>True\<close> (the \<open>bisect_left\<close>/\<open>pop\<close> pair removes
  exactly that key when its count drops to 0); on an absent value it returns
  \<open>False\<close> and leaves the state unchanged.
\<close>

theorem impl_delete_correct:
  assumes "impl_rel s M"
  shows "\<exists>s'. impl_delete s v = Inr (v \<in># M, s') \<and> impl_rel s' (M - {#v#})
              \<and> (v \<notin># M \<longrightarrow> s' = s)"
proof (cases "v \<in># M")
  case True
  then show ?thesis using impl_delete_present [OF assms] by auto
next
  case False
  then have "M - {#v#} = M" by (simp add: diff_single_trivial)
  with False assms show ?thesis by (simp add: impl_delete_absent)
qed

theorem impl_delete_correct_witness:
  "impl_delete (snd (impl_add (snd (impl_add impl_init 3)) 3)) 3
     = Inr (True, snd (impl_add impl_init 3))"
proof -
  have rel: "impl_rel (snd (impl_add (snd (impl_add impl_init 3)) 3)) (add_mset 3 (add_mset 3 {#}))"
    by (intro impl_add_rel(2) impl_rel_init)
  obtain s' where s': "impl_delete (snd (impl_add (snd (impl_add impl_init 3)) 3)) 3 = Inr (True, s')"
    using impl_delete_correct [OF rel, of 3] by auto
  moreover have "s' = snd (impl_add impl_init 3)"
    using s' by (auto simp: impl_delete_def impl_add_def impl_init_def fun_eq_iff)
  ultimately show ?thesis by simp
qed

text \<open>
  C12: \<open>add\<close> returns the number of stored integers after the addition, one more
  than before, and the new state stores the value once more.
\<close>

theorem impl_add_size:
  assumes "impl_rel s M"
  shows "fst (impl_add s v) = int (size M) + 1 \<and> impl_rel (snd (impl_add s v)) (add_mset v M)"
  using impl_add_rel [OF assms, of v] by (metis fst_conv)

theorem impl_add_size_witness:
  "fst (impl_add (snd (impl_add impl_init 4)) 4) = 2"
proof -
  have "impl_rel (snd (impl_add impl_init 4)) (add_mset 4 {#})"
    by (intro impl_add_rel(2) impl_rel_init)
  then show ?thesis using impl_add_size [of "snd (impl_add impl_init 4)" "add_mset 4 {#}" 4]
    by simp
qed

lemma length_expand: "length (expand c ks) = sum_list (map (\<lambda>k. nat (c k)) ks)"
  by (induction ks) auto

lemma int_sum_list: "int (sum_list (map f ks)) = sum_list (map (\<lambda>k. int (f k)) ks)"
  by (induction ks) auto

lemma set_expand: "set (expand c ks) = {k \<in> set ks. 0 < c k}"
  by (induction ks) auto

lemma int_sum_list_nat:
  "\<forall>k\<in>set ks. 0 \<le> c k \<Longrightarrow> int (sum_list (map (\<lambda>k. nat (c k)) ks)) = sum_list (map c ks)"
  by (induction ks) auto

lemma impl_rel_wf: "impl_rel s M \<Longrightarrow> impl_wf s"
proof -
  assume r: "impl_rel s M"
  then have k: "sorted (keys s)" "distinct (keys s)" "set (keys s) = set_mset M"
      "\<forall>v. counts s v = int (count M v)" "impl_size s = int (size M)"
    by (simp_all add: impl_rel_def)
  have "size M = sum (count M) (set_mset M)" by (rule size_multiset_overloaded_eq)
  also have "\<dots> = sum_list (map (count M) (keys s))"
    using k(2,3) by (metis sum_list_distinct_conv_sum_set)
  finally have sz: "size M = sum_list (map (count M) (keys s))" .
  moreover have "counts s = (\<lambda>v. int (count M v))" using k(4) by (simp add: fun_eq_iff)
  ultimately have "impl_size s = sum_list (map (counts s) (keys s))"
    using k(5) by (simp add: int_sum_list o_def)
  then show ?thesis using k by (auto simp: impl_wf_def)
qed

lemma impl_wf_rel: "impl_wf s \<Longrightarrow> impl_rel s (mset (expand (counts s) (keys s)))"
proof -
  assume w: "impl_wf s"
  let ?M = "mset (expand (counts s) (keys s))"
  have k: "sorted (keys s)" "distinct (keys s)" "\<forall>v. 0 \<le> counts s v"
      "\<forall>v. v \<in> set (keys s) \<longleftrightarrow> 0 < counts s v"
      "impl_size s = sum_list (map (counts s) (keys s))"
    using w by (simp_all add: impl_wf_def)
  have c: "counts s v = int (count ?M v)" for v
    using k(2,3,4) by (cases "v \<in> set (keys s)") (auto simp: count_mset_expand intro: antisym)
  have "set (keys s) = set_mset ?M"
    using k(4) by (auto simp: set_expand)
  moreover have "impl_size s = int (size ?M)"
    using k(3,5) by (simp add: length_expand int_sum_list_nat)
  ultimately show ?thesis using k(1,2) c by (simp add: impl_rel_def)
qed

lemma impl_wf_iff: "impl_wf s \<longleftrightarrow> (\<exists>M. impl_rel s M)"
  using impl_rel_wf impl_wf_rel by blast

text \<open>
  C26: well-formedness is a type invariant of \<open>IntegerContainerImpl\<close>: from a
  well-formed state every call returns (no \<open>IndexError\<close> from \<open>pop\<close>) and leaves a
  well-formed state.
\<close>

theorem impl_step_wf:
  assumes "impl_wf s"
  shows "\<exists>a s'. impl_step s op = Inr (a, s') \<and> impl_wf s'"
proof -
  obtain M where rel: "impl_rel s M" using assms impl_wf_iff by blast
  have "rel_sum (=) (\<lambda>(a, s') (b, t'). a = b \<and> impl_rel s' t')
          (impl_step s op) (total_step iface_step M op)"
    using impl_step_sim rel by (simp add: step_sim_def)
  then show ?thesis
    by (cases "impl_step s op") (auto simp: total_step_def rel_sum.simps impl_wf_iff)
qed

theorem impl_step_wf_witness:
  "\<exists>a s'. impl_step \<lparr>counts = counter_empty(3 := 2, 7 := 1), impl_size = 3, keys = [3, 7]\<rparr> (Delete 3)
     = Inr (a, s') \<and> impl_wf s'"
proof (rule impl_step_wf)
  show "impl_wf \<lparr>counts = counter_empty(3 := 2, 7 := 1), impl_size = 3, keys = [3, 7]\<rparr>"
    by (auto simp: impl_wf_def counter_empty_def)
qed

end
