(* ===== verification/Heap_Container.thy ===== *)
theory Heap_Container
  imports Median_Spec
begin

text \<open>
  \<open>Container\<close> (\<open>filesystem/container.py\<close>): the median container built from two heaps.
  \<open>_low\<close> is a max-heap of the smaller half (stored negated in a \<open>heapq\<close> min-heap),
  \<open>_high\<close> a min-heap of the larger half. Deletion is lazy: \<open>delete\<close> only records the
  value in \<open>_del_low\<close> or \<open>_del_high\<close> and adjusts the live counts \<open>_count_low\<close>,
  \<open>_count_high\<close> and sizes \<open>_n_low\<close>, \<open>_n_high\<close>; the stale heap entries are dropped
  by \<open>_prune_low\<close>/\<open>_prune_high\<close> when they reach the top. \<open>_rebalance\<close> moves one
  element between the heaps to keep \<open>_n_low - _n_high\<close> in \<open>{0, 1}\<close>.

  The theory models \<open>heapq\<close> by its contract (a multiset whose top is its minimum), the
  state as the record \<open>container\<close>, every method as a function returning
  \<open>py_error + _\<close> for the \<open>IndexError\<close>s of \<open>heappop\<close> and \<open>heap[0]\<close> and the
  \<open>RuntimeError\<close> of \<open>get_median\<close>, and the two prune loops as terminating functions.
  \<open>heap_inv s L H\<close> says that the live elements of \<open>_low\<close> and \<open>_high\<close> are the
  multisets \<open>L\<close> and \<open>H\<close> and states the invariants I1 to I4 of the design.
\<close>

section \<open>Library calls: \<open>heapq\<close>\<close>

text \<open>
  A \<open>heapq\<close> list is observed only through \<open>heap[0]\<close> (its minimum),
  \<open>heappush\<close> and \<open>heappop\<close> (which returns and removes the minimum); both reads raise
  \<open>IndexError\<close> on an empty list. The heap is modelled by the multiset of its entries.
\<close>

definition heappush :: "int multiset \<Rightarrow> int \<Rightarrow> int multiset" where
  "heappush h x = add_mset x h"

definition heappop :: "int multiset \<Rightarrow> py_error + (int \<times> int multiset)" where
  "heappop h = (if h = {#} then Inl IndexError else Inr (Min_mset h, h - {#Min_mset h#}))"

definition heap_top :: "int multiset \<Rightarrow> py_error + int" where
  "heap_top h = (if h = {#} then Inl IndexError else Inr (Min_mset h))"

text \<open>
  The top of \<open>_low\<close> is read as \<open>-_low[0]\<close>, that is \<open>- Min_mset (low s)\<close>;
  keep that form instead of the library's rewriting into \<open>Max (uminus ` _)\<close>.
\<close>

declare minus_Min_eq_Max [simp del] minus_Max_eq_Min [simp del]

section \<open>State\<close>

record container =
  low :: "int multiset"
  high :: "int multiset"
  del_low :: counter
  del_high :: counter
  count_all :: counter
  count_low :: counter
  count_high :: counter
  n_low :: int
  n_high :: int

definition container_init :: container where
  "container_init =
     \<lparr>low = {#}, high = {#}, del_low = counter_empty, del_high = counter_empty,
      count_all = counter_empty, count_low = counter_empty, count_high = counter_empty,
      n_low = 0, n_high = 0\<rparr>"

section \<open>Pruning stale tops\<close>

text \<open>
  \<open>_prune_low\<close>: while \<open>_low\<close> is not empty and its top \<open>v = -_low[0]\<close> has a
  pending deletion, pop it and decrement \<open>_del_low[v]\<close>. Each round removes one heap
  entry, so the loop ends.
\<close>

function prune_low :: "container \<Rightarrow> container" where
  "prune_low s =
     (if low s \<noteq> {#} \<and> 0 < del_low s (- Min_mset (low s))
      then prune_low (s\<lparr>low := low s - {#Min_mset (low s)#},
                        del_low := counter_dec (del_low s) (- Min_mset (low s))\<rparr>)
      else s)"
  by pat_completeness auto
termination
  by (relation "measure (\<lambda>s. size (low s))") (auto intro: size_Diff1_less Min_in_mset)

function prune_high :: "container \<Rightarrow> container" where
  "prune_high s =
     (if high s \<noteq> {#} \<and> 0 < del_high s (Min_mset (high s))
      then prune_high (s\<lparr>high := high s - {#Min_mset (high s)#},
                         del_high := counter_dec (del_high s) (Min_mset (high s))\<rparr>)
      else s)"
  by pat_completeness auto
termination
  by (relation "measure (\<lambda>s. size (high s))") (auto intro: size_Diff1_less Min_in_mset)

declare prune_low.simps [simp del] prune_high.simps [simp del]

section \<open>Methods\<close>

definition rebalance :: "container \<Rightarrow> py_error + container" where
  "rebalance s0 =
     (let s = prune_high (prune_low s0) in
      if n_low s > n_high s + 1 then
        (let s = prune_low s in
         case heappop (low s) of
           Inl e \<Rightarrow> Inl e
         | Inr (nx, lo) \<Rightarrow>
             (let x = - nx;
                  s = s\<lparr>low := lo, count_low := counter_dec (count_low s) x, n_low := n_low s - 1\<rparr>;
                  s = s\<lparr>high := heappush (high s) x, count_high := counter_inc (count_high s) x,
                        n_high := n_high s + 1\<rparr>
              in Inr (prune_high (prune_low s))))
      else if n_low s < n_high s then
        (let s = prune_high s in
         case heappop (high s) of
           Inl e \<Rightarrow> Inl e
         | Inr (x, hi) \<Rightarrow>
             (let s = s\<lparr>high := hi, count_high := counter_dec (count_high s) x,
                        n_high := n_high s - 1\<rparr>;
                  s = s\<lparr>low := heappush (low s) (- x), count_low := counter_inc (count_low s) x,
                        n_low := n_low s + 1\<rparr>
              in Inr (prune_high (prune_low s))))
      else Inr s)"

text \<open>Pushing a value into one half, with its live count and size.\<close>

definition push_low :: "container \<Rightarrow> int \<Rightarrow> container" where
  "push_low s v = s\<lparr>low := heappush (low s) (- v), count_low := counter_inc (count_low s) v,
                    n_low := n_low s + 1\<rparr>"

definition push_high :: "container \<Rightarrow> int \<Rightarrow> container" where
  "push_high s v = s\<lparr>high := heappush (high s) v, count_high := counter_inc (count_high s) v,
                     n_high := n_high s + 1\<rparr>"

definition container_add :: "container \<Rightarrow> int \<Rightarrow> py_error + container" where
  "container_add s0 v =
     (let s = s0\<lparr>count_all := counter_inc (count_all s0) v\<rparr> in
      if n_low s = 0 then rebalance (push_low s v)
      else
        (let s = prune_low s in
         case heap_top (low s) of
           Inl e \<Rightarrow> Inl e
         | Inr t \<Rightarrow>
             (let median = - t in
              if v \<le> median then rebalance (push_low s v) else rebalance (push_high s v))))"

text \<open>Recording one pending deletion of a value in one half.\<close>

definition mark_low :: "container \<Rightarrow> int \<Rightarrow> container" where
  "mark_low s v = s\<lparr>del_low := counter_inc (del_low s) v, count_low := counter_dec (count_low s) v,
                    n_low := n_low s - 1\<rparr>"

definition mark_high :: "container \<Rightarrow> int \<Rightarrow> container" where
  "mark_high s v = s\<lparr>del_high := counter_inc (del_high s) v,
                     count_high := counter_dec (count_high s) v, n_high := n_high s - 1\<rparr>"

definition container_delete :: "container \<Rightarrow> int \<Rightarrow> py_error + (bool \<times> container)" where
  "container_delete s0 v =
     (if count_all s0 v = 0 then Inr (False, s0)
      else
        (let s = s0\<lparr>count_all := counter_dec (count_all s0) v\<rparr>;
             s = prune_high (prune_low s);
             s = (if 0 < count_low s v then mark_low s v else mark_high s v);
             s = prune_high (prune_low s)
         in case rebalance s of Inl e \<Rightarrow> Inl e | Inr s' \<Rightarrow> Inr (True, s')))"

definition container_get_median :: "container \<Rightarrow> py_error + (int \<times> container)" where
  "container_get_median s0 =
     (if n_low s0 + n_high s0 = 0 then Inl RuntimeError
      else
        (case rebalance (prune_high (prune_low s0)) of
           Inl e \<Rightarrow> Inl e
         | Inr s \<Rightarrow>
             (let s = prune_low s in
              case heap_top (low s) of Inl e \<Rightarrow> Inl e | Inr t \<Rightarrow> Inr (- t, s))))"

fun container_step :: "container \<Rightarrow> op \<Rightarrow> py_error + (answer \<times> container)" where
  "container_step s (Add v) =
     (case container_add s v of Inl e \<Rightarrow> Inl e | Inr s' \<Rightarrow> Inr (NoValue, s'))"
| "container_step s (Delete v) =
     (case container_delete s v of Inl e \<Rightarrow> Inl e | Inr (b, s') \<Rightarrow> Inr (Removed b, s'))"
| "container_step s GetMedian =
     (case container_get_median s of Inl e \<Rightarrow> Inl e | Inr (m, s') \<Rightarrow> Inr (Median (Some m), s'))"

section \<open>The invariant\<close>

text \<open>
  One half of the container is consistent with the multiset \<open>L\<close> of its live elements
  when the heap holds \<open>L\<close> and the pending deletions, the tally \<open>del\<close> counts exactly
  the pending entries of each value (I4), and the live counter \<open>cnt\<close> gives each value
  its multiplicity in \<open>L\<close>. \<open>heap\<close> is read with actual values, so \<open>_low\<close> enters
  negated back.
\<close>

definition pending_ok :: "int multiset \<Rightarrow> counter \<Rightarrow> counter \<Rightarrow> int multiset \<Rightarrow> bool" where
  "pending_ok heap del cnt L \<longleftrightarrow>
     L \<subseteq># heap \<and> (\<forall>v. del v = int (count heap v) - int (count L v))
     \<and> (\<forall>v. cnt v = int (count L v))"

abbreviation low_vals :: "container \<Rightarrow> int multiset" where
  "low_vals s \<equiv> image_mset uminus (low s)"

text \<open>
  \<open>heap_wf\<close>: both halves consistent, \<open>_count\<close> the multiset \<open>L + H\<close> (I3), the size
  fields the sizes of \<open>L\<close> and \<open>H\<close>, and every element of \<open>L\<close> at most every element
  of \<open>H\<close> (I2). \<open>heap_inv\<close> adds the balance I1.
\<close>

definition heap_wf :: "container \<Rightarrow> int multiset \<Rightarrow> int multiset \<Rightarrow> bool" where
  "heap_wf s L H \<longleftrightarrow>
     pending_ok (low_vals s) (del_low s) (count_low s) L
     \<and> pending_ok (high s) (del_high s) (count_high s) H
     \<and> (\<forall>v. count_all s v = int (count (L + H) v))
     \<and> n_low s = int (size L) \<and> n_high s = int (size H)
     \<and> (\<forall>x\<in>#L. \<forall>y\<in>#H. x \<le> y)"

definition heap_inv :: "container \<Rightarrow> int multiset \<Rightarrow> int multiset \<Rightarrow> bool" where
  "heap_inv s L H \<longleftrightarrow> heap_wf s L H \<and> size H \<le> size L \<and> size L \<le> size H + 1"

definition heap_rel :: "container \<Rightarrow> int multiset \<Rightarrow> bool" where
  "heap_rel s M \<longleftrightarrow> (\<exists>L H. M = L + H \<and> heap_inv s L H)"

section \<open>The pending-deletion tallies\<close>

named_theorems pending_rules "how the operations on one half keep it consistent"

lemma pending_ok_pop_stale [pending_rules]:
  assumes "pending_ok h d c L" and "0 < d x"
  shows "pending_ok (h - {#x#}) (counter_dec d x) c L"
proof -
  have "count L x < count h x" using assms by (simp add: pending_ok_def)
  then have "L \<subseteq># h - {#x#}"
    using assms(1) by (auto simp: pending_ok_def subseteq_mset_def)
  then show ?thesis using assms by (auto simp: pending_ok_def)
qed

lemma pending_ok_push [pending_rules]:
  assumes "pending_ok h d c L"
  shows "pending_ok (add_mset x h) d (counter_inc c x) (add_mset x L)"
  using assms by (auto simp: pending_ok_def)

lemma pending_ok_le: "pending_ok h d c L \<Longrightarrow> count L x \<le> count h x"
  by (simp add: pending_ok_def subseteq_mset_def)

lemma pending_ok_pop_live [pending_rules]:
  assumes "pending_ok h d c L" and "x \<in># L"
  shows "pending_ok (h - {#x#}) d (counter_dec c x) (L - {#x#})"
proof -
  have le: "\<forall>a. count L a \<le> count h a" using assms(1) by (metis pending_ok_le)
  have "0 < count L x" using assms(2) by simp
  then have "L - {#x#} \<subseteq># h - {#x#}"
    using le by (auto simp: subseteq_mset_def intro: diff_le_mono)
  moreover have "0 < count h x" using le \<open>0 < count L x\<close> by (metis less_le_trans)
  ultimately show ?thesis
    using assms \<open>0 < count L x\<close> by (auto simp: pending_ok_def of_nat_diff)
qed

lemma pending_ok_mark [pending_rules]:
  assumes "pending_ok h d c L" and "x \<in># L"
  shows "pending_ok h (counter_inc d x) (counter_dec c x) (L - {#x#})"
proof -
  have le: "\<forall>a. count L a \<le> count h a" using assms(1) by (metis pending_ok_le)
  have "0 < count L x" using assms(2) by simp
  have "L - {#x#} \<subseteq># h"
    using le by (auto simp: subseteq_mset_def intro: le_trans [OF diff_le_self])
  then show ?thesis
    using assms \<open>0 < count L x\<close> by (auto simp: pending_ok_def of_nat_diff)
qed

lemma pending_ok_live:
  assumes "pending_ok h d c L" and "x \<in># h" and "d x \<le> 0"
  shows "x \<in># L"
proof -
  have "count h x \<le> count L x" using assms(1,3) by (simp add: pending_ok_def)
  moreover have "0 < count h x" using assms(2) by simp
  ultimately have "0 < count L x" by linarith
  then show ?thesis by simp
qed

lemma pending_ok_empty [pending_rules]: "pending_ok {#} counter_empty counter_empty {#}"
  by (simp add: pending_ok_def)

section \<open>The prune loops\<close>

text \<open>A prune loop changes only its heap and its tally.\<close>

lemma prune_low_shape: "\<exists>h d. prune_low s = s\<lparr>low := h, del_low := d\<rparr>"
proof (induction s rule: prune_low.induct)
  case (1 s)
  show ?case
  proof (cases "low s \<noteq> {#} \<and> 0 < del_low s (- Min_mset (low s))")
    case True
    with "1.IH" show ?thesis by (auto simp: prune_low.simps [of s])
  next
    case False
    then have "prune_low s = s\<lparr>low := low s, del_low := del_low s\<rparr>"
      by (auto simp: prune_low.simps [of s])
    then show ?thesis by blast
  qed
qed

lemma prune_high_shape: "\<exists>h d. prune_high s = s\<lparr>high := h, del_high := d\<rparr>"
proof (induction s rule: prune_high.induct)
  case (1 s)
  show ?case
  proof (cases "high s \<noteq> {#} \<and> 0 < del_high s (Min_mset (high s))")
    case True
    with "1.IH" show ?thesis by (auto simp: prune_high.simps [of s])
  next
    case False
    then have "prune_high s = s\<lparr>high := high s, del_high := del_high s\<rparr>"
      by (auto simp: prune_high.simps [of s])
    then show ?thesis by blast
  qed
qed

lemma prune_low_frame [simp]:
  "high (prune_low s) = high s \<and> del_high (prune_low s) = del_high s
   \<and> count_all (prune_low s) = count_all s \<and> count_low (prune_low s) = count_low s
   \<and> count_high (prune_low s) = count_high s \<and> n_low (prune_low s) = n_low s
   \<and> n_high (prune_low s) = n_high s"
  using prune_low_shape [of s] by auto

lemma prune_high_frame [simp]:
  "low (prune_high s) = low s \<and> del_low (prune_high s) = del_low s
   \<and> count_all (prune_high s) = count_all s \<and> count_low (prune_high s) = count_low s
   \<and> count_high (prune_high s) = count_high s \<and> n_low (prune_high s) = n_low s
   \<and> n_high (prune_high s) = n_high s"
  using prune_high_shape [of s] by auto

lemma image_uminus_remove:
  "m \<in># h \<Longrightarrow> image_mset uminus (h - {#m#}) = image_mset uminus h - {#- m#}"
  by (simp add: image_mset_Diff)

text \<open>
  A prune loop keeps its half consistent, and when it stops the top of a non-empty heap
  has no pending deletion.
\<close>

lemma prune_low_ok:
  assumes "pending_ok (low_vals s) (del_low s) c L"
  shows "pending_ok (low_vals (prune_low s)) (del_low (prune_low s)) c L
         \<and> (low (prune_low s) \<noteq> {#} \<longrightarrow> del_low (prune_low s) (- Min_mset (low (prune_low s))) \<le> 0)"
  using assms
proof (induction s rule: prune_low.induct)
  case (1 s)
  show ?case
  proof (cases "low s \<noteq> {#} \<and> 0 < del_low s (- Min_mset (low s))")
    case True
    let ?m = "Min_mset (low s)"
    let ?s = "s\<lparr>low := low s - {#?m#}, del_low := counter_dec (del_low s) (- ?m)\<rparr>"
    have "?m \<in># low s" using True by (simp add: Min_in_mset)
    then have p: "pending_ok (low_vals ?s) (del_low ?s) c L"
      using "1.prems" True by (simp add: image_uminus_remove pending_ok_pop_stale)
    have "prune_low s = prune_low ?s" using True by (simp add: prune_low.simps [of s])
    then show ?thesis using "1.IH" [OF True p] by simp
  next
    case False
    then have "prune_low s = s" by (auto simp: prune_low.simps [of s])
    with "1.prems" False show ?thesis by auto
  qed
qed

lemma prune_high_ok:
  assumes "pending_ok (high s) (del_high s) c H"
  shows "pending_ok (high (prune_high s)) (del_high (prune_high s)) c H
         \<and> (high (prune_high s) \<noteq> {#} \<longrightarrow> del_high (prune_high s) (Min_mset (high (prune_high s))) \<le> 0)"
  using assms
proof (induction s rule: prune_high.induct)
  case (1 s)
  show ?case
  proof (cases "high s \<noteq> {#} \<and> 0 < del_high s (Min_mset (high s))")
    case True
    let ?m = "Min_mset (high s)"
    let ?s = "s\<lparr>high := high s - {#?m#}, del_high := counter_dec (del_high s) ?m\<rparr>"
    have p: "pending_ok (high ?s) (del_high ?s) c H"
      using "1.prems" True by (simp add: pending_ok_pop_stale)
    have "prune_high s = prune_high ?s" using True by (simp add: prune_high.simps [of s])
    then show ?thesis using "1.IH" [OF True p] by simp
  next
    case False
    then have "prune_high s = s" by (auto simp: prune_high.simps [of s])
    with "1.prems" False show ?thesis by auto
  qed
qed

section \<open>The top of a pruned heap\<close>

lemma pending_max:
  assumes "pending_ok hv d c L" and "x \<in># hv" and "d x \<le> 0" and "\<forall>y\<in>#hv. y \<le> x"
  shows "L \<noteq> {#} \<and> Max_mset L = x"
proof -
  have x: "x \<in># L" using assms(1-3) by (rule pending_ok_live)
  have "\<forall>y\<in>#L. y \<le> x"
    using assms(1,4) by (auto simp: pending_ok_def dest: mset_subset_eqD)
  with x show ?thesis by (auto intro: Max_eqI)
qed

lemma pending_min:
  assumes "pending_ok hv d c L" and "x \<in># hv" and "d x \<le> 0" and "\<forall>y\<in>#hv. x \<le> y"
  shows "L \<noteq> {#} \<and> Min_mset L = x"
proof -
  have x: "x \<in># L" using assms(1-3) by (rule pending_ok_live)
  have "\<forall>y\<in>#L. x \<le> y"
    using assms(1,4) by (auto simp: pending_ok_def dest: mset_subset_eqD)
  with x show ?thesis by (auto intro: Min_eqI)
qed

lemma pending_nonempty: "pending_ok hv d c L \<Longrightarrow> L \<noteq> {#} \<Longrightarrow> hv \<noteq> {#}"
  by (auto simp: pending_ok_def)

lemma heap_wf_prune_low: "heap_wf s L H \<Longrightarrow> heap_wf (prune_low s) L H"
  using prune_low_ok [of s "count_low s" L] by (simp add: heap_wf_def)

lemma heap_wf_prune_high: "heap_wf s L H \<Longrightarrow> heap_wf (prune_high s) L H"
  using prune_high_ok [of s "count_high s" H] by (simp add: heap_wf_def)

lemma heap_wf_prune: "heap_wf s L H \<Longrightarrow> heap_wf (prune_high (prune_low s)) L H"
  by (intro heap_wf_prune_high heap_wf_prune_low)

text \<open>After \<open>_prune_low\<close>, \<open>-_low[0]\<close> is the largest live element of the low half.\<close>

lemma prune_low_top:
  assumes wf: "heap_wf s L H" and ne: "L \<noteq> {#}"
  shows "low (prune_low s) \<noteq> {#} \<and> - Min_mset (low (prune_low s)) = Max_mset L"
proof -
  let ?h = "low (prune_low s)"
  have ok: "pending_ok (image_mset uminus ?h) (del_low (prune_low s)) (count_low s) L"
      and top: "?h \<noteq> {#} \<longrightarrow> del_low (prune_low s) (- Min_mset ?h) \<le> 0"
    using prune_low_ok [of s "count_low s" L] wf by (simp_all add: heap_wf_def)
  have hne: "?h \<noteq> {#}" using pending_nonempty [OF ok ne] by simp
  have "- Min_mset ?h \<in># image_mset uminus ?h" using hne by (simp add: Min_in_mset)
  moreover have "\<forall>y\<in>#image_mset uminus ?h. y \<le> - Min_mset ?h" by auto
  ultimately have "Max_mset L = - Min_mset ?h"
    using pending_max [OF ok] top hne by blast
  with hne show ?thesis by simp
qed

text \<open>After \<open>_prune_high\<close>, \<open>_high[0]\<close> is the smallest live element of the high half.\<close>

lemma prune_high_top:
  assumes wf: "heap_wf s L H" and ne: "H \<noteq> {#}"
  shows "high (prune_high s) \<noteq> {#} \<and> Min_mset (high (prune_high s)) = Min_mset H"
proof -
  let ?h = "high (prune_high s)"
  have ok: "pending_ok ?h (del_high (prune_high s)) (count_high s) H"
      and top: "?h \<noteq> {#} \<longrightarrow> del_high (prune_high s) (Min_mset ?h) \<le> 0"
    using prune_high_ok [of s "count_high s" H] wf by (simp_all add: heap_wf_def)
  have hne: "?h \<noteq> {#}" using pending_nonempty [OF ok ne] .
  have "Min_mset ?h \<in># ?h" using hne by (simp add: Min_in_mset)
  moreover have "\<forall>y\<in>#?h. Min_mset ?h \<le> y" by auto
  ultimately have "Min_mset H = Min_mset ?h"
    using pending_min [OF ok] top hne by blast
  with hne show ?thesis by simp
qed

section \<open>Rebalancing\<close>

text \<open>Moving the largest live element of the low half to the high half.\<close>

lemma move_low_to_high:
  assumes wf: "heap_wf s L H" and x: "x \<in># L" and xmax: "\<forall>a\<in>#L. a \<le> x"
    and top: "- x \<in># low s"
  shows "heap_wf (s\<lparr>low := low s - {#- x#}, count_low := counter_dec (count_low s) x,
                    n_low := n_low s - 1, high := add_mset x (high s),
                    count_high := counter_inc (count_high s) x, n_high := n_high s + 1\<rparr>)
           (L - {#x#}) (add_mset x H)"
proof -
  have pl: "pending_ok (image_mset uminus (low s - {#- x#})) (del_low s)
              (counter_dec (count_low s) x) (L - {#x#})"
    using wf x top by (simp add: heap_wf_def image_uminus_remove pending_ok_pop_live)
  have ph: "pending_ok (add_mset x (high s)) (del_high s) (counter_inc (count_high s) x)
              (add_mset x H)"
    using wf by (simp add: heap_wf_def pending_ok_push)
  have sum: "L - {#x#} + add_mset x H = L + H" using x by simp
  have ord: "\<forall>a\<in>#L - {#x#}. \<forall>b\<in>#add_mset x H. a \<le> b"
    using wf xmax by (auto simp: heap_wf_def dest: in_diffD)
  show ?thesis
    using wf pl ph sum ord x by (simp add: heap_wf_def size_remove1_int)
qed

text \<open>Moving the smallest live element of the high half to the low half.\<close>

lemma move_high_to_low:
  assumes wf: "heap_wf s L H" and x: "x \<in># H" and xmin: "\<forall>b\<in>#H. x \<le> b"
    and top: "x \<in># high s"
  shows "heap_wf (s\<lparr>high := high s - {#x#}, count_high := counter_dec (count_high s) x,
                    n_high := n_high s - 1, low := add_mset (- x) (low s),
                    count_low := counter_inc (count_low s) x, n_low := n_low s + 1\<rparr>)
           (add_mset x L) (H - {#x#})"
proof -
  have pl: "pending_ok (image_mset uminus (add_mset (- x) (low s))) (del_low s)
              (counter_inc (count_low s) x) (add_mset x L)"
    using wf by (simp add: heap_wf_def pending_ok_push)
  have ph: "pending_ok (high s - {#x#}) (del_high s) (counter_dec (count_high s) x) (H - {#x#})"
    using wf x by (simp add: heap_wf_def pending_ok_pop_live)
  have sum: "add_mset x L + (H - {#x#}) = L + H" using x by simp
  have ord: "\<forall>a\<in>#add_mset x L. \<forall>b\<in>#H - {#x#}. a \<le> b"
    using wf xmin by (auto simp: heap_wf_def dest: in_diffD)
  show ?thesis
    using wf pl ph sum ord x by (simp add: heap_wf_def size_remove1_int)
qed

text \<open>
  One call of \<open>_rebalance\<close> suffices: an \<open>add\<close> or a \<open>delete\<close> changes the size
  difference by one, so it is at most one away from \<open>{0, 1}\<close>.
\<close>

lemma rebalance_ok:
  assumes wf: "heap_wf s L H" and b1: "size H \<le> size L + 1" and b2: "size L \<le> size H + 2"
  shows "\<exists>s' L' H'. rebalance s = Inr s' \<and> heap_inv s' L' H' \<and> L' + H' = L + H"
proof -
  let ?s1 = "prune_high (prune_low s)"
  have wf1: "heap_wf ?s1 L H" using wf by (rule heap_wf_prune)
  have n: "n_low s = int (size L)" "n_high s = int (size H)"
    using wf by (simp_all add: heap_wf_def)
  consider (up) "size L = size H + 2" | (down) "size H = size L + 1"
    | (ok) "size H \<le> size L" "size L \<le> size H + 1"
    using b1 b2 by linarith
  then show ?thesis
  proof cases
    case up
    let ?s2 = "prune_low ?s1" and ?x = "Max_mset L"
    have ne: "L \<noteq> {#}" using up by auto
    have wf2: "heap_wf ?s2 L H" using wf1 by (rule heap_wf_prune_low)
    have top: "low ?s2 \<noteq> {#}" "Min_mset (low ?s2) = - ?x"
      using prune_low_top [OF wf1 ne] by auto
    have inlow: "- ?x \<in># low ?s2" using top by (metis Min_in_mset)
    let ?s3 = "?s2\<lparr>low := low ?s2 - {#- ?x#}, count_low := counter_dec (count_low ?s2) ?x,
                  n_low := n_low ?s2 - 1, high := add_mset ?x (high ?s2),
                  count_high := counter_inc (count_high ?s2) ?x, n_high := n_high ?s2 + 1\<rparr>"
    have wf3: "heap_wf ?s3 (L - {#?x#}) (add_mset ?x H)"
      using ne by (intro move_low_to_high [OF wf2 _ _ inlow]) (simp_all add: Max_in_mset)
    have "rebalance s = Inr (prune_high (prune_low ?s3))"
      using n up top by (simp add: rebalance_def Let_def heappop_def heappush_def)
    moreover have "heap_inv (prune_high (prune_low ?s3)) (L - {#?x#}) (add_mset ?x H)"
      using heap_wf_prune [OF wf3] up ne by (simp add: heap_inv_def size_Diff_singleton Max_in_mset)
    moreover have "L - {#?x#} + add_mset ?x H = L + H" using ne by (simp add: Max_in_mset)
    ultimately show ?thesis by blast
  next
    case down
    let ?s2 = "prune_high ?s1" and ?x = "Min_mset H"
    have ne: "H \<noteq> {#}" using down by auto
    have wf2: "heap_wf ?s2 L H" using wf1 by (rule heap_wf_prune_high)
    have top: "high ?s2 \<noteq> {#}" "Min_mset (high ?s2) = ?x"
      using prune_high_top [OF wf1 ne] by auto
    have inhigh: "?x \<in># high ?s2" using top by (metis Min_in_mset)
    let ?s3 = "?s2\<lparr>high := high ?s2 - {#?x#}, count_high := counter_dec (count_high ?s2) ?x,
                  n_high := n_high ?s2 - 1, low := add_mset (- ?x) (low ?s2),
                  count_low := counter_inc (count_low ?s2) ?x, n_low := n_low ?s2 + 1\<rparr>"
    have wf3: "heap_wf ?s3 (add_mset ?x L) (H - {#?x#})"
      using ne by (intro move_high_to_low [OF wf2 _ _ inhigh]) (simp_all add: Min_in_mset)
    have "rebalance s = Inr (prune_high (prune_low ?s3))"
      using n down top by (simp add: rebalance_def Let_def heappop_def heappush_def)
    moreover have "heap_inv (prune_high (prune_low ?s3)) (add_mset ?x L) (H - {#?x#})"
      using heap_wf_prune [OF wf3] down ne by (simp add: heap_inv_def size_Diff_singleton Min_in_mset)
    moreover have "add_mset ?x L + (H - {#?x#}) = L + H" using ne by (simp add: Min_in_mset)
    ultimately show ?thesis by blast
  next
    case ok
    then have "rebalance s = Inr ?s1" using n by (simp add: rebalance_def Let_def)
    moreover have "heap_inv ?s1 L H" using wf1 ok by (simp add: heap_inv_def)
    ultimately show ?thesis by blast
  qed
qed

section \<open>The methods keep the invariant\<close>

text \<open>The prune loops do not read \<open>_count\<close>, so updating it commutes with them.\<close>

lemma prune_low_count_all: "prune_low (s\<lparr>count_all := c\<rparr>) = (prune_low s)\<lparr>count_all := c\<rparr>"
proof (induction s rule: prune_low.induct)
  case (1 s)
  show ?case
  proof (cases "low s \<noteq> {#} \<and> 0 < del_low s (- Min_mset (low s))")
    case True
    let ?u = "s\<lparr>low := low s - {#Min_mset (low s)#},
                 del_low := counter_dec (del_low s) (- Min_mset (low s))\<rparr>"
    have "prune_low (s\<lparr>count_all := c\<rparr>) = prune_low (?u\<lparr>count_all := c\<rparr>)"
      using True by (simp add: prune_low.simps [of "s\<lparr>count_all := c\<rparr>"]) (cases s, simp)
    also have "\<dots> = (prune_low ?u)\<lparr>count_all := c\<rparr>" using "1.IH" True by simp
    also have "\<dots> = (prune_low s)\<lparr>count_all := c\<rparr>"
      using True by (simp add: prune_low.simps [of s])
    finally show ?thesis .
  next
    case False
    then show ?thesis
      by (auto simp: prune_low.simps [of s] prune_low.simps [of "s\<lparr>count_all := c\<rparr>"])
  qed
qed

lemma prune_high_count_all: "prune_high (s\<lparr>count_all := c\<rparr>) = (prune_high s)\<lparr>count_all := c\<rparr>"
proof (induction s rule: prune_high.induct)
  case (1 s)
  show ?case
  proof (cases "high s \<noteq> {#} \<and> 0 < del_high s (Min_mset (high s))")
    case True
    let ?u = "s\<lparr>high := high s - {#Min_mset (high s)#},
                 del_high := counter_dec (del_high s) (Min_mset (high s))\<rparr>"
    have "prune_high (s\<lparr>count_all := c\<rparr>) = prune_high (?u\<lparr>count_all := c\<rparr>)"
      using True by (simp add: prune_high.simps [of "s\<lparr>count_all := c\<rparr>"]) (cases s, simp)
    also have "\<dots> = (prune_high ?u)\<lparr>count_all := c\<rparr>" using "1.IH" True by simp
    also have "\<dots> = (prune_high s)\<lparr>count_all := c\<rparr>"
      using True by (simp add: prune_high.simps [of s])
    finally show ?thesis .
  next
    case False
    then show ?thesis
      by (auto simp: prune_high.simps [of s] prune_high.simps [of "s\<lparr>count_all := c\<rparr>"])
  qed
qed

lemma push_low_wf:
  assumes "heap_wf s L H" and "\<forall>y\<in>#H. v \<le> y"
  shows "heap_wf (push_low (s\<lparr>count_all := counter_inc (count_all s) v\<rparr>) v) (add_mset v L) H"
  using assms by (simp add: heap_wf_def push_low_def heappush_def pending_ok_push)

lemma push_high_wf:
  assumes "heap_wf s L H" and "\<forall>x\<in>#L. x \<le> v"
  shows "heap_wf (push_high (s\<lparr>count_all := counter_inc (count_all s) v\<rparr>) v) L (add_mset v H)"
  using assms by (simp add: heap_wf_def push_high_def heappush_def pending_ok_push)

lemma mark_low_wf:
  assumes "heap_wf s L H" and "v \<in># L"
  shows "heap_wf (mark_low (s\<lparr>count_all := counter_dec (count_all s) v\<rparr>) v) (L - {#v#}) H"
proof -
  have "L - {#v#} + H = L + H - {#v#}" using assms(2) by simp
  moreover have "1 \<le> count L v + count H v" using assms(2) by (simp add: Suc_le_eq)
  ultimately show ?thesis
    using assms by (auto simp: heap_wf_def mark_low_def pending_ok_mark size_remove1_int
        of_nat_diff dest: in_diffD)
qed

lemma mark_high_wf:
  assumes "heap_wf s L H" and "v \<in># H"
  shows "heap_wf (mark_high (s\<lparr>count_all := counter_dec (count_all s) v\<rparr>) v) L (H - {#v#})"
proof -
  have "L + (H - {#v#}) = L + H - {#v#}" using assms(2) by simp
  moreover have "1 \<le> count L v + count H v" using assms(2) by (simp add: Suc_le_eq)
  ultimately show ?thesis
    using assms by (auto simp: heap_wf_def mark_high_def pending_ok_mark size_remove1_int
        of_nat_diff dest: in_diffD)
qed

lemma heap_inv_wf: "heap_inv s L H \<Longrightarrow> heap_wf s L H"
  by (simp add: heap_inv_def)

lemma heap_inv_sizes:
  "heap_inv s L H \<Longrightarrow> n_low s = int (size L) \<and> n_high s = int (size H)
     \<and> size H \<le> size L \<and> size L \<le> size H + 1"
  by (simp add: heap_inv_def heap_wf_def)

lemma container_add_ok:
  assumes inv: "heap_inv s L H"
  shows "\<exists>s' L' H'. container_add s v = Inr s' \<and> heap_inv s' L' H' \<and> L' + H' = add_mset v (L + H)"
proof -
  have wf: "heap_wf s L H" using inv by (rule heap_inv_wf)
  have sz: "n_low s = int (size L)" "size H \<le> size L" "size L \<le> size H + 1"
    using heap_inv_sizes [OF inv] by auto
  have ord: "\<forall>x\<in>#L. \<forall>y\<in>#H. x \<le> y" using wf by (simp add: heap_wf_def)
  let ?inc = "counter_inc (count_all s) v"
  show ?thesis
  proof (cases "L = {#}")
    case True
    then have "H = {#}" using sz by simp
    then have "heap_wf (push_low (s\<lparr>count_all := ?inc\<rparr>) v) (add_mset v L) H"
      using wf by (intro push_low_wf) auto
    then obtain s' L' H' where "rebalance (push_low (s\<lparr>count_all := ?inc\<rparr>) v) = Inr s'"
        "heap_inv s' L' H'" "L' + H' = add_mset v L + H"
      using rebalance_ok \<open>H = {#}\<close> True by fastforce
    moreover have "container_add s v = rebalance (push_low (s\<lparr>count_all := ?inc\<rparr>) v)"
      using sz True by (simp add: container_add_def)
    ultimately show ?thesis by auto
  next
    case False
    let ?p = "prune_low s"
    have wfp: "heap_wf ?p L H" using wf by (rule heap_wf_prune_low)
    have top: "low ?p \<noteq> {#}" "- Min_mset (low ?p) = Max_mset L"
      using prune_low_top [OF wf False] by auto
    have mx: "Max_mset L \<in># L" using False by (simp add: Max_in_mset)
    have add: "container_add s v =
        (if v \<le> Max_mset L then rebalance (push_low (?p\<lparr>count_all := ?inc\<rparr>) v)
         else rebalance (push_high (?p\<lparr>count_all := ?inc\<rparr>) v))"
      using sz False top by (simp add: container_add_def prune_low_count_all heap_top_def)
    show ?thesis
    proof (cases "v \<le> Max_mset L")
      case True
      then have "\<forall>y\<in>#H. v \<le> y" using ord mx by (meson order_trans)
      then have "heap_wf (push_low (?p\<lparr>count_all := ?inc\<rparr>) v) (add_mset v L) H"
        using push_low_wf [OF wfp] by simp
      then obtain s' L' H' where "rebalance (push_low (?p\<lparr>count_all := ?inc\<rparr>) v) = Inr s'"
          "heap_inv s' L' H'" "L' + H' = add_mset v L + H"
        using rebalance_ok sz by fastforce
      with add True show ?thesis by auto
    next
      case False
      have "\<forall>x\<in>#L. x \<le> v"
      proof
        fix x assume "x \<in># L"
        then have "x \<le> Max_mset L" by simp
        with False show "x \<le> v" by simp
      qed
      then have "heap_wf (push_high (?p\<lparr>count_all := ?inc\<rparr>) v) L (add_mset v H)"
        using push_high_wf [OF wfp] by simp
      then obtain s' L' H' where "rebalance (push_high (?p\<lparr>count_all := ?inc\<rparr>) v) = Inr s'"
          "heap_inv s' L' H'" "L' + H' = L + add_mset v H"
        using rebalance_ok sz by fastforce
      with add False show ?thesis by auto
    qed
  qed
qed

lemma container_delete_present:
  assumes inv: "heap_inv s L H" and v: "v \<in># L + H"
  shows "\<exists>s' L' H'. container_delete s v = Inr (True, s') \<and> heap_inv s' L' H'
                     \<and> L' + H' = L + H - {#v#}"
proof -
  have wf: "heap_wf s L H" using inv by (rule heap_inv_wf)
  have sz: "size H \<le> size L" "size L \<le> size H + 1"
    using heap_inv_sizes [OF inv] by auto
  have "0 < count (L + H) v" using v by (simp only: count_greater_zero_iff)
  then have c: "count_all s v \<noteq> 0" "count_low s v = int (count L v)"
    using wf by (auto simp: heap_wf_def pending_ok_def simp del: count_union)
  let ?dec = "counter_dec (count_all s) v"
  let ?s1 = "prune_high (prune_low s)"
  have wf1: "heap_wf ?s1 L H" using wf by (rule heap_wf_prune)
  have pp: "prune_high (prune_low (s\<lparr>count_all := ?dec\<rparr>)) = ?s1\<lparr>count_all := ?dec\<rparr>"
    by (simp add: prune_low_count_all prune_high_count_all)
  show ?thesis
  proof (cases "v \<in># L")
    case True
    let ?m = "mark_low (?s1\<lparr>count_all := ?dec\<rparr>) v"
    have "heap_wf ?m (L - {#v#}) H" using mark_low_wf [OF wf1 True] by simp
    then have "heap_wf (prune_high (prune_low ?m)) (L - {#v#}) H" by (rule heap_wf_prune)
    then obtain s' L' H' where r: "rebalance (prune_high (prune_low ?m)) = Inr s'"
        "heap_inv s' L' H'" "L' + H' = L - {#v#} + H"
      using rebalance_ok sz True by (fastforce simp: size_Diff_singleton)
    have "container_delete s v = Inr (True, s')"
      using c True r(1) by (simp add: container_delete_def Let_def pp)
    with r True show ?thesis by auto
  next
    case False
    then have vh: "v \<in># H" using v by simp
    let ?m = "mark_high (?s1\<lparr>count_all := ?dec\<rparr>) v"
    have "heap_wf ?m L (H - {#v#})" using mark_high_wf [OF wf1 vh] by simp
    then have "heap_wf (prune_high (prune_low ?m)) L (H - {#v#})" by (rule heap_wf_prune)
    then obtain s' L' H' where r: "rebalance (prune_high (prune_low ?m)) = Inr s'"
        "heap_inv s' L' H'" "L' + H' = L + (H - {#v#})"
      using rebalance_ok sz vh by (fastforce simp: size_Diff_singleton)
    have "container_delete s v = Inr (True, s')"
      using c False r(1) by (simp add: container_delete_def Let_def pp not_in_iff)
    with r vh show ?thesis by auto
  qed
qed

lemma container_delete_absent:
  assumes "heap_inv s L H" and "v \<notin># L + H"
  shows "container_delete s v = Inr (False, s)"
  using assms by (simp add: container_delete_def heap_inv_def heap_wf_def not_in_iff)

lemma container_get_median_ok:
  assumes inv: "heap_inv s L H" and ne: "L + H \<noteq> {#}"
  shows "\<exists>s' L' H'. container_get_median s = Inr (Max_mset L', s') \<and> heap_inv s' L' H'
                     \<and> L' + H' = L + H"
proof -
  have sz: "n_low s = int (size L)" "n_high s = int (size H)" "size H \<le> size L"
      "size L \<le> size H + 1"
    using heap_inv_sizes [OF inv] by auto
  have "heap_wf (prune_high (prune_low s)) L H" using inv by (simp add: heap_inv_def heap_wf_prune)
  then obtain s2 L' H' where r: "rebalance (prune_high (prune_low s)) = Inr s2"
      "heap_inv s2 L' H'" "L' + H' = L + H"
    using rebalance_ok sz by fastforce
  have sz2: "size H' \<le> size L'" "size L' \<le> size H' + 1"
    using heap_inv_sizes [OF r(2)] by auto
  have ne': "L' \<noteq> {#}" using ne r(3) sz2 by auto
  have wf2: "heap_wf s2 L' H'" using r(2) by (rule heap_inv_wf)
  have top: "low (prune_low s2) \<noteq> {#}" "- Min_mset (low (prune_low s2)) = Max_mset L'"
    using prune_low_top [OF wf2 ne'] by auto
  have pos: "0 < size L + size H" using ne by (metis nonempty_has_size size_union)
  have "n_low s + n_high s = int (size L + size H)" using sz by simp
  with pos have "n_low s + n_high s \<noteq> 0" by (simp only: of_nat_eq_0_iff)
  then have "container_get_median s = Inr (Max_mset L', prune_low s2)"
    using r(1) top by (simp add: container_get_median_def heap_top_def)
  moreover have "heap_inv (prune_low s2) L' H'"
    using heap_wf_prune_low [OF wf2] sz2 by (simp add: heap_inv_def)
  ultimately show ?thesis using r(3) by blast
qed

lemma container_get_median_empty:
  assumes "heap_inv s L H" and "L + H = {#}"
  shows "container_get_median s = Inl RuntimeError"
  using assms by (simp add: container_get_median_def heap_inv_def heap_wf_def)

section \<open>Refinement of the \<open>container.py\<close> contract\<close>

lemma heap_inv_init: "heap_inv container_init {#} {#}"
  by (simp add: heap_inv_def heap_wf_def container_init_def pending_ok_empty)

lemma heap_rel_init: "heap_rel container_init {#}"
  using heap_inv_init by (auto simp: heap_rel_def)

lemma heap_relI: "heap_inv s L H \<Longrightarrow> L + H = M \<Longrightarrow> heap_rel s M"
  by (auto simp: heap_rel_def)

lemma heap_inv_median:
  assumes "heap_inv s L H" and "L \<noteq> {#}"
  shows "median_of (L + H) = Some (Max_mset L)"
  using assms by (intro median_of_split) (simp_all add: heap_inv_def heap_wf_def)

lemma container_step_sim: "step_sim heap_rel container_step container_spec_step"
  unfolding step_sim_def
proof (intro allI impI)
  fix s M o1
  assume "heap_rel s M"
  then obtain L H where M: "M = L + H" and inv: "heap_inv s L H" by (auto simp: heap_rel_def)
  show "rel_sum (=) (\<lambda>(a, s') (b, t'). a = b \<and> heap_rel s' t')
          (container_step s o1) (container_spec_step M o1)"
  proof (cases o1)
    case (Add v)
    obtain s' L' H' where "container_add s v = Inr s'" "heap_inv s' L' H'"
        "L' + H' = add_mset v (L + H)"
      using container_add_ok [OF inv] by blast
    with Add M show ?thesis by (auto simp: rel_sum.simps intro: heap_relI)
  next
    case (Delete v)
    show ?thesis
    proof (cases "v \<in># M")
      case True
      obtain s' L' H' where "container_delete s v = Inr (True, s')" "heap_inv s' L' H'"
          "L' + H' = L + H - {#v#}"
        using container_delete_present [OF inv] True M by blast
      with Delete True M show ?thesis by (auto simp: rel_sum.simps intro: heap_relI)
    next
      case False
      then have "container_delete s v = Inr (False, s)"
        using container_delete_absent [OF inv] M by simp
      with Delete False M inv show ?thesis by (auto simp: rel_sum.simps intro: heap_relI)
    qed
  next
    case GetMedian
    show ?thesis
    proof (cases "M = {#}")
      case True
      then show ?thesis
        using GetMedian M container_get_median_empty [OF inv] by (simp add: rel_sum.simps)
    next
      case False
      obtain s' L' H' where r: "container_get_median s = Inr (Max_mset L', s')"
          "heap_inv s' L' H'" "L' + H' = L + H"
        using container_get_median_ok [OF inv] False M by blast
      have "L' \<noteq> {#}" using r(2,3) False M by (auto simp: heap_inv_def)
      then have "median_of M = Some (Max_mset L')"
        using heap_inv_median [OF r(2)] r(3) M by simp
      with r GetMedian False M show ?thesis by (auto simp: rel_sum.simps intro: heap_relI)
    qed
  qed
qed

lemma container_step_rel:
  assumes "heap_rel s M" and "container_step s o1 = Inr (a, s')"
  shows "\<exists>M'. heap_rel s' M'"
proof -
  have "rel_sum (=) (\<lambda>(a, s') (b, t'). a = b \<and> heap_rel s' t')
          (container_step s o1) (container_spec_step M o1)"
    using container_step_sim assms(1) by (simp add: step_sim_def)
  with assms(2) show ?thesis by (cases "container_spec_step M o1") (auto simp: rel_sum.simps)
qed

text \<open>The states a caller can reach from \<open>Container()\<close> by calling the methods.\<close>

inductive heap_reachable :: "container \<Rightarrow> bool" where
  init: "heap_reachable container_init"
| step: "heap_reachable s \<Longrightarrow> container_step s o1 = Inr (a, s') \<Longrightarrow> heap_reachable s'"

lemma heap_reachable_rel: "heap_reachable s \<Longrightarrow> \<exists>M. heap_rel s M"
proof (induction rule: heap_reachable.induct)
  case init
  then show ?case using heap_rel_init by blast
next
  case (step s o1 a s')
  then show ?case using container_step_rel by blast
qed

lemma spec_run_no_index_error: "container_spec_run M ops \<noteq> Inl IndexError"
proof (induction ops arbitrary: M)
  case Nil
  then show ?case by simp
next
  case (Cons o1 ops)
  then show ?case
    by (cases o1) (auto split: sum.splits prod.splits if_splits)
qed

section \<open>Properties\<close>

text \<open>
  C1: \<open>Container\<close> refines its contract. For every sequence of operations, running it
  from a fresh \<open>Container()\<close> gives exactly the answers of the multiset specification
  \<open>container_spec_step\<close>: \<open>add\<close> returns nothing, \<open>delete\<close> whether the value was
  present, \<open>get_median\<close> the element at sorted position \<open>(n - 1) div 2\<close>, and the
  only exception is the \<open>RuntimeError\<close> of \<open>get_median\<close> on an empty container.
\<close>

theorem container_refines_spec:
  "run_steps container_step container_init ops = container_spec_run {#} ops"
  by (rule run_steps_simulation [OF container_step_sim heap_rel_init])

text \<open>
  C3: in every state reachable from \<open>Container()\<close>, the heaps, the pending-deletion
  tallies, the live counters and the size fields satisfy the design invariants I1 to I4:
  the live elements of \<open>_low\<close> and \<open>_high\<close> are multisets \<open>L\<close> and \<open>H\<close> with
  \<open>size H \<le> size L \<le> size H + 1\<close>, every element of \<open>L\<close> is at most every
  element of \<open>H\<close>, \<open>_count\<close> is \<open>L + H\<close>, and each heap holds its live elements
  plus exactly the pending deletions its tally counts.
\<close>

theorem container_reachable_inv:
  assumes "heap_reachable s"
  shows "\<exists>L H. heap_inv s L H"
  using heap_reachable_rel [OF assms] by (auto simp: heap_rel_def)

theorem container_reachable_inv_witness:
  "\<exists>s'. container_step container_init (Add 5) = Inr (NoValue, s') \<and> (\<exists>L H. heap_inv s' L H)"
proof -
  obtain s' L H where "container_add container_init 5 = Inr s'" "heap_inv s' L H"
      "L + H = add_mset 5 ({#} + {#})"
    using container_add_ok [OF heap_inv_init] by blast
  then have step: "container_step container_init (Add 5) = Inr (NoValue, s')" by simp
  then have "heap_reachable s'" by (rule heap_reachable.step [OF heap_reachable.init])
  then have "\<exists>L H. heap_inv s' L H" by (rule container_reachable_inv)
  with step show ?thesis by blast
qed

text \<open>
  C5: \<open>get_median\<close> on a non-empty container returns the lower median, the element
  at sorted position \<open>(n - 1) div 2\<close> of the stored multiset, and leaves a state that
  stores the same multiset.
\<close>

theorem container_get_median_correct:
  assumes "heap_rel s M" and "M \<noteq> {#}"
  shows "\<exists>m s'. median_of M = Some m \<and> container_get_median s = Inr (m, s') \<and> heap_rel s' M"
proof -
  obtain L H where M: "M = L + H" and inv: "heap_inv s L H"
    using assms(1) by (auto simp: heap_rel_def)
  obtain s' L' H' where r: "container_get_median s = Inr (Max_mset L', s')"
      "heap_inv s' L' H'" "L' + H' = L + H"
    using container_get_median_ok [OF inv] assms(2) M by blast
  have "L' \<noteq> {#}" using r(2,3) assms(2) M by (auto simp: heap_inv_def)
  then have "median_of M = Some (Max_mset L')" using heap_inv_median [OF r(2)] r(3) M by simp
  with r M show ?thesis by (auto intro: heap_relI)
qed

theorem container_get_median_correct_witness:
  "\<exists>s' s''. container_add container_init 7 = Inr s'
      \<and> container_get_median s' = Inr (7, s'')"
proof -
  obtain s' L H where a: "container_add container_init 7 = Inr s'" "heap_inv s' L H"
      "L + H = add_mset 7 ({#} + {#})"
    using container_add_ok [OF heap_inv_init] by blast
  then have "heap_rel s' {#7#}" by (auto intro: heap_relI)
  then obtain m s'' where "median_of {#7#} = Some m" "container_get_median s' = Inr (m, s'')"
    using container_get_median_correct [of s' "{#7#}"] by auto
  moreover have "median_of {#7#} = Some 7" by (simp add: median_of_def)
  ultimately show ?thesis using a(1) by auto
qed

text \<open>
  C7: \<open>delete\<close> never raises: on a present value it removes one occurrence and returns
  \<open>True\<close>; on an absent value it returns \<open>False\<close> and changes nothing.
\<close>

theorem container_delete_correct:
  assumes "heap_rel s M"
  shows "\<exists>s'. container_delete s v = Inr (v \<in># M, s') \<and> heap_rel s' (M - {#v#})
              \<and> (v \<notin># M \<longrightarrow> s' = s)"
proof -
  obtain L H where M: "M = L + H" and inv: "heap_inv s L H"
    using assms by (auto simp: heap_rel_def)
  show ?thesis
  proof (cases "v \<in># M")
    case True
    then obtain s' L' H' where "container_delete s v = Inr (True, s')" "heap_inv s' L' H'"
        "L' + H' = L + H - {#v#}"
      using container_delete_present [OF inv] M by blast
    with True M show ?thesis by (auto intro: heap_relI)
  next
    case False
    then have "M - {#v#} = M" by (simp add: diff_single_trivial)
    with False M inv assms show ?thesis by (simp add: container_delete_absent)
  qed
qed

theorem container_delete_correct_witness:
  "\<exists>s'. container_delete container_init 3 = Inr (False, s') \<and> s' = container_init"
  using container_delete_correct [OF heap_rel_init, of 3] by auto

text \<open>
  C9: \<open>get_median\<close> raises \<open>RuntimeError\<close> on an empty container, whatever
  stale entries its heaps still hold.
\<close>

theorem container_get_median_empty_error:
  assumes "heap_rel s {#}"
  shows "container_get_median s = Inl RuntimeError"
  using assms container_get_median_empty by (auto simp: heap_rel_def)

theorem container_get_median_empty_error_witness:
  "container_get_median container_init = Inl RuntimeError"
  by (rule container_get_median_empty_error [OF heap_rel_init])

text \<open>
  C11: no sequence of operations makes \<open>Container\<close> raise \<open>IndexError\<close>: every
  \<open>heappop\<close> and every \<open>heap[0]\<close> the methods perform finds a non-empty heap.
\<close>

theorem container_no_index_error:
  "run_steps container_step container_init ops \<noteq> Inl IndexError"
  using run_steps_simulation [OF container_step_sim heap_rel_init] spec_run_no_index_error
  by metis

text \<open>
  C10: \<open>get_median\<close> is idempotent: called again with no \<open>add\<close> or \<open>delete\<close> in
  between, it returns the same value, although the first call may have pruned and
  rebalanced the heaps.
\<close>

theorem container_get_median_idempotent:
  assumes "heap_rel s M" and "container_get_median s = Inr (m, s')"
  shows "\<exists>s''. container_get_median s' = Inr (m, s'')"
proof -
  obtain L H where M: "M = L + H" and inv: "heap_inv s L H"
    using assms(1) by (auto simp: heap_rel_def)
  have ne: "L + H \<noteq> {#}" using assms(2) container_get_median_empty [OF inv] by auto
  obtain s2 L' H' where r: "container_get_median s = Inr (Max_mset L', s2)"
      "heap_inv s2 L' H'" "L' + H' = L + H"
    using container_get_median_ok [OF inv ne] by blast
  have m: "m = Max_mset L'" "s' = s2" using r(1) assms(2) by auto
  have "L' \<noteq> {#}" using r(2,3) ne by (auto simp: heap_inv_def)
  then have med: "median_of (L + H) = Some m" using heap_inv_median [OF r(2)] r(3) m by simp
  obtain s3 L'' H'' where r2: "container_get_median s2 = Inr (Max_mset L'', s3)"
      "heap_inv s3 L'' H''" "L'' + H'' = L + H"
    using container_get_median_ok [OF r(2)] r(3) ne by auto
  have "L'' \<noteq> {#}" using r2(2,3) ne by (auto simp: heap_inv_def)
  then have "Max_mset L'' = m" using heap_inv_median [OF r2(2)] r2(3) med by simp
  with r2(1) m show ?thesis by auto
qed

theorem container_get_median_idempotent_witness:
  "\<exists>s1 s2 s3. container_add container_init 7 = Inr s1
      \<and> container_get_median s1 = Inr (7, s2) \<and> container_get_median s2 = Inr (7, s3)"
proof -
  obtain s1 L H where a: "container_add container_init 7 = Inr s1" "heap_inv s1 L H"
      "L + H = add_mset 7 ({#} + {#})"
    using container_add_ok [OF heap_inv_init] by blast
  obtain s2 L' H' where g: "container_get_median s1 = Inr (Max_mset L', s2)"
      "heap_inv s2 L' H'" "L' + H' = L + H"
    using container_get_median_ok [OF a(2)] a(3) by auto
  have "L' \<noteq> {#}" using g(2,3) a(3) by (auto simp: heap_inv_def)
  then have "median_of {#7#} = Some (Max_mset L')" using heap_inv_median [OF g(2)] g(3) a(3) by simp
  then have seven: "Max_mset L' = 7" by (simp add: median_of_def)
  have "heap_rel s1 {#7#}" using a by (auto intro: heap_relI)
  then obtain s3 where "container_get_median s2 = Inr (7, s3)"
    using container_get_median_idempotent [of s1 "{#7#}" 7 s2] g(1) seven by auto
  with a(1) g(1) seven show ?thesis by auto
qed

end
