(* ===== verification/File_Storage.thy ===== *)
theory File_Storage
  imports Prelude "HOL-Library.AList" "HOL-Library.List_Lexorder" "HOL-Library.Char_ord"
    "HOL-Library.Product_Lexorder"
begin

text \<open>
  \<open>file_storage/simulation.py\<close>: \<open>simulate_coding_framework\<close> replays a list of
  commands (each a list of strings) against an in-memory file store and returns one
  output line per command. Files carry a size string, a creation time and an optional
  time-to-live; a file is alive at time \<open>t\<close> when it has no TTL or
  \<open>t < created_at + ttl\<close>. The store is a Python dict, modelled as an association list
  updated by \<open>AList.update\<close> (a new key is appended, an existing key keeps its place,
  as in a dict). A character is a code point below 256: there \<open>\s\<close> and \<open>str.strip\<close>
  match 9-13, 28-32, 133 and 160, \<open>\d\<close> the ASCII digits and \<open>[a-zA-Z]\<close> the
  ASCII letters, as Python's Unicode rules give on that range. The dispatcher takes the
  timestamp parser as a parameter, so every theorem here holds for any parser; the
  module's own \<open>parse_ts\<close> is modelled in \<open>Timestamps\<close>. The lemmas show the
  store operations (C13-C16), search (C17-C19, C22), rollback (C20), size parsing (C21)
  and the dispatcher (C23, C24); \<open>search_spec\<close> is the contract of search on the dict
  as a map, which \<open>fs_search\<close> implements (C27) on every store with distinct names, and
  every store the dispatcher reaches has distinct names (\<open>fs_reachable_distinct\<close>).
\<close>

section \<open>Files and the store\<close>

record file_obj =
  file_size :: string
  created_at :: int
  ttl_seconds :: "int option"

type_synonym db = "(string \<times> file_obj) list"

definition is_alive :: "int \<Rightarrow> file_obj \<Rightarrow> bool" where
  "is_alive at_ts obj =
     (case ttl_seconds obj of None \<Rightarrow> True | Some t \<Rightarrow> at_ts < created_at obj + t)"

definition fs_upload ::
  "int \<Rightarrow> string \<Rightarrow> string \<Rightarrow> int option \<Rightarrow> db \<Rightarrow> py_error + db" where
  "fs_upload at_ts name sz ttl db =
     (if (case map_of db name of None \<Rightarrow> False | Some obj \<Rightarrow> is_alive at_ts obj)
      then Inl RuntimeError
      else Inr (AList.update name \<lparr>file_size = sz, created_at = at_ts, ttl_seconds = ttl\<rparr> db))"

definition fs_get :: "int \<Rightarrow> string \<Rightarrow> db \<Rightarrow> file_obj option" where
  "fs_get at_ts name db =
     (case map_of db name of
        None \<Rightarrow> None
      | Some obj \<Rightarrow> if is_alive at_ts obj then Some obj else None)"

definition fs_copy :: "int \<Rightarrow> string \<Rightarrow> string \<Rightarrow> db \<Rightarrow> py_error + db" where
  "fs_copy at_ts src dest db =
     (case fs_get at_ts src db of
        None \<Rightarrow> Inl RuntimeError
      | Some obj \<Rightarrow>
          Inr (AList.update dest \<lparr>file_size = file_size obj, created_at = created_at obj,
                                  ttl_seconds = ttl_seconds obj\<rparr> db))"

section \<open>Sizes: \<open>convert_file_size\<close>\<close>

text \<open>
  The pattern \<open>^\s*(\d+)\s*([a-zA-Z]*)\s*$\<close>. Its three character classes are disjoint,
  so the greedy reading below is its only match.
\<close>

definition is_space :: "char \<Rightarrow> bool" where
  "is_space c \<longleftrightarrow> of_char c \<in> {9, 10, 11, 12, 13, 28, 29, 30, 31, 32, 133, 160 :: nat}"

definition is_digit :: "char \<Rightarrow> bool" where
  "is_digit c \<longleftrightarrow> CHR ''0'' \<le> c \<and> c \<le> CHR ''9''"

definition is_alpha :: "char \<Rightarrow> bool" where
  "is_alpha c \<longleftrightarrow> (CHR ''a'' \<le> c \<and> c \<le> CHR ''z'') \<or> (CHR ''A'' \<le> c \<and> c \<le> CHR ''Z'')"

definition size_match :: "string \<Rightarrow> (string \<times> string) option" where
  "size_match s =
     (let r1 = dropWhile is_space s;
          ds = takeWhile is_digit r1;
          r2 = dropWhile is_space (dropWhile is_digit r1);
          us = takeWhile is_alpha r2;
          r3 = dropWhile is_space (dropWhile is_alpha r2)
      in if ds \<noteq> [] \<and> r3 = [] then Some (ds, us) else None)"

definition digit_val :: "char \<Rightarrow> int" where
  "digit_val c = int (of_char c) - int (of_char CHR ''0'')"

text \<open>\<open>int(m.group(1))\<close> on a string of decimal digits.\<close>

definition digits_value :: "string \<Rightarrow> int" where
  "digits_value ds = foldl (\<lambda>n c. 10 * n + digit_val c) 0 ds"

text \<open>\<open>str.lower\<close> on ASCII letters.\<close>

definition lower_char :: "char \<Rightarrow> char" where
  "lower_char c = (if CHR ''A'' \<le> c \<and> c \<le> CHR ''Z'' then char_of (of_char c + (32::nat)) else c)"

definition convert_file_size :: "string \<Rightarrow> py_error + int" where
  "convert_file_size s =
     (case size_match s of
        None \<Rightarrow> Inl ValueError
      | Some (ds, us) \<Rightarrow>
          (let value = digits_value ds; unit = map lower_char us
           in if unit = ''kb'' \<or> unit = ''k'' then Inr (value * 1024)
              else if unit = ''mb'' \<or> unit = ''m'' then Inr (value * 1024 * 1024)
              else if unit = ''b'' \<or> unit = '''' then Inr value
              else Inl ValueError))"

section \<open>Search and rollback\<close>

text \<open>\<open>str.startswith\<close>.\<close>

definition startswith :: "string \<Rightarrow> string \<Rightarrow> bool" where
  "startswith s p \<longleftrightarrow> take (length p) s = p"

text \<open>The live files whose name starts with the prefix, in dict order.\<close>

definition matching :: "int \<Rightarrow> string \<Rightarrow> db \<Rightarrow> db" where
  "matching at_ts prefix db = filter (\<lambda>(name, obj). startswith name prefix \<and> is_alive at_ts obj) db"

text \<open>The loop building \<open>sized\<close>: \<open>convert_file_size\<close> may raise on any entry.\<close>

fun sized_entries :: "db \<Rightarrow> py_error + (string \<times> int) list" where
  "sized_entries [] = Inr []"
| "sized_entries ((name, obj) # rest) =
     (case convert_file_size (file_size obj) of
        Inl e \<Rightarrow> Inl e
      | Inr n \<Rightarrow> (case sized_entries rest of Inl e \<Rightarrow> Inl e | Inr xs \<Rightarrow> Inr ((name, n) # xs)))"

definition fs_search :: "int \<Rightarrow> string \<Rightarrow> bool \<Rightarrow> db \<Rightarrow> py_error + string list" where
  "fs_search at_ts prefix alphabetical_only db =
     (if alphabetical_only then Inr (take 10 (sort (map fst (matching at_ts prefix db))))
      else
        (case sized_entries (matching at_ts prefix db) of
           Inl e \<Rightarrow> Inl e
         | Inr sized \<Rightarrow> Inr (map fst (take 10 (sort_key (\<lambda>(name, n). (- n, name)) sized)))))"

definition fs_rollback :: "int \<Rightarrow> db \<Rightarrow> db" where
  "fs_rollback t db = map (\<lambda>(name, obj). (name, obj\<lparr>created_at := t\<rparr>)) db"

section \<open>The dispatcher\<close>

text \<open>
  \<open>int(s)\<close> on a string: surrounding whitespace, an optional sign, and decimal digits
  with single underscores between them.
\<close>

definition strip :: "string \<Rightarrow> string" where
  "strip s = rev (dropWhile is_space (rev (dropWhile is_space s)))"

definition int_digits_ok :: "string \<Rightarrow> bool" where
  "int_digits_ok b \<longleftrightarrow>
     b \<noteq> [] \<and> is_digit (hd b) \<and> is_digit (last b)
     \<and> list_all (\<lambda>c. is_digit c \<or> c = CHR ''_'') b
     \<and> list_all (\<lambda>(a, c). \<not> (a = CHR ''_'' \<and> c = CHR ''_'')) (zip b (tl b))"

definition py_int :: "string \<Rightarrow> py_error + int" where
  "py_int s =
     (let t = strip s;
          (sign, body) = (case t of
                            c # r \<Rightarrow> if c = CHR ''-'' then (-1, r)
                                     else if c = CHR ''+'' then (1, r) else (1, t)
                          | [] \<Rightarrow> (1, t))
      in if int_digits_ok body then Inr (sign * digits_value (filter is_digit body))
         else Inl ValueError)"

text \<open>\<open>", ".join(names)\<close>\<close>

fun join_names :: "string list \<Rightarrow> string" where
  "join_names [] = []"
| "join_names [x] = x"
| "join_names (x # xs) = x @ '', '' @ join_names xs"

record fs_state =
  db_files :: db
  rollback_mode :: bool

definition fs_init :: fs_state where
  "fs_init = \<lparr>db_files = [], rollback_mode = False\<rparr>"

text \<open>
  One iteration of the dispatch loop: the command \<open>op\<close>, the output line it appends
  and the new state. \<open>parse_ts\<close> stands for the module's \<open>parse_ts\<close>
  (\<open>datetime.strptime\<close> to epoch seconds), which may raise.
\<close>

definition fs_step ::
  "(string \<Rightarrow> py_error + int) \<Rightarrow> fs_state \<Rightarrow> string list \<Rightarrow> py_error + (string \<times> fs_state)" where
  "fs_step parse_ts st op =
     py_bind (nth_py op 0) (\<lambda>cmd.
     if cmd = ''FILE_UPLOAD'' then
       py_bind (nth_py op 1) (\<lambda>name. py_bind (nth_py op 2) (\<lambda>sz.
       py_bind (fs_upload 0 name sz None (db_files st)) (\<lambda>db.
       Inr (''uploaded '' @ name, st\<lparr>db_files := db\<rparr>))))
     else if cmd = ''FILE_GET'' then
       py_bind (nth_py op 1) (\<lambda>name.
       Inr (if fs_get 0 name (db_files st) = None then ''file not found'' else ''got '' @ name, st))
     else if cmd = ''FILE_COPY'' then
       py_bind (nth_py op 1) (\<lambda>src. py_bind (nth_py op 2) (\<lambda>dest.
       py_bind (fs_copy 0 src dest (db_files st)) (\<lambda>db.
       Inr (''copied '' @ src @ '' to '' @ dest, st\<lparr>db_files := db\<rparr>))))
     else if cmd = ''FILE_SEARCH'' then
       py_bind (nth_py op 1) (\<lambda>prefix.
       py_bind (fs_search 0 prefix False (db_files st)) (\<lambda>names.
       Inr (''found ['' @ join_names names @ '']'', st)))
     else if cmd = ''FILE_UPLOAD_AT'' then
       py_bind (nth_py op 1) (\<lambda>ts_str. py_bind (nth_py op 2) (\<lambda>name.
       py_bind (nth_py op 3) (\<lambda>sz.
       py_bind (if length op = 5 then py_bind (nth_py op 4) (\<lambda>t. py_bind (py_int t) (\<lambda>n. Inr (Some n)))
                else Inr None) (\<lambda>ttl.
       py_bind (parse_ts ts_str) (\<lambda>at_ts.
       py_bind (fs_upload at_ts name sz ttl (db_files st)) (\<lambda>db.
       Inr (''uploaded at '' @ name, st\<lparr>db_files := db\<rparr>)))))))
     else if cmd = ''FILE_GET_AT'' then
       py_bind (nth_py op 1) (\<lambda>ts_str. py_bind (nth_py op 2) (\<lambda>name.
       py_bind (parse_ts ts_str) (\<lambda>at_ts.
       Inr (if fs_get at_ts name (db_files st) = None then ''file not found'' else ''got at '' @ name,
            st))))
     else if cmd = ''FILE_COPY_AT'' then
       py_bind (nth_py op 1) (\<lambda>ts_str. py_bind (nth_py op 2) (\<lambda>src.
       py_bind (nth_py op 3) (\<lambda>dest. py_bind (parse_ts ts_str) (\<lambda>at_ts.
       py_bind (fs_copy at_ts src dest (db_files st)) (\<lambda>db.
       Inr (''copied at '' @ src @ '' to '' @ dest, st\<lparr>db_files := db\<rparr>))))))
     else if cmd = ''FILE_SEARCH_AT'' then
       py_bind (nth_py op 1) (\<lambda>ts_str. py_bind (nth_py op 2) (\<lambda>prefix.
       py_bind (parse_ts ts_str) (\<lambda>at_ts.
       py_bind (fs_search at_ts prefix (rollback_mode st) (db_files st)) (\<lambda>names.
       Inr (''found at ['' @ join_names names @ '']'', st)))))
     else if cmd = ''ROLLBACK'' then
       py_bind (nth_py op 1) (\<lambda>ts_str. py_bind (parse_ts ts_str) (\<lambda>t.
       Inr (''rollback to '' @ ts_str,
            st\<lparr>rollback_mode := True, db_files := fs_rollback t (db_files st)\<rparr>)))
     else Inl RuntimeError)"

fun fs_run ::
  "(string \<Rightarrow> py_error + int) \<Rightarrow> fs_state \<Rightarrow> string list list \<Rightarrow> py_error + string list" where
  "fs_run parse_ts st [] = Inr []"
| "fs_run parse_ts st (op # ops) =
     py_bind (fs_step parse_ts st op) (\<lambda>(line, st'). py_bind (fs_run parse_ts st' ops) (\<lambda>out.
     Inr (line # out)))"

definition simulate_coding_framework ::
  "(string \<Rightarrow> py_error + int) \<Rightarrow> string list list \<Rightarrow> py_error + string list" where
  "simulate_coding_framework parse_ts ops = fs_run parse_ts fs_init ops"

section \<open>Printing sizes and reachable states\<close>

text \<open>
  \<open>nat_digits n\<close> is \<open>str(n)\<close>, used to state the round trip of \<open>convert_file_size\<close>;
  \<open>fs_reachable\<close> holds of the states the dispatch loop reaches from the empty store.
\<close>

fun nat_digits :: "nat \<Rightarrow> string" where
  "nat_digits n =
     (if n < 10 then [char_of (48 + n)] else nat_digits (n div 10) @ [char_of (48 + n mod 10)])"

declare nat_digits.simps [simp del]

inductive fs_reachable :: "(string \<Rightarrow> py_error + int) \<Rightarrow> fs_state \<Rightarrow> bool" for parse_ts where
  init: "fs_reachable parse_ts fs_init"
| step: "fs_reachable parse_ts st \<Longrightarrow> fs_step parse_ts st op = Inr (line, st')
          \<Longrightarrow> fs_reachable parse_ts st'"

section \<open>The search contract on the dict as a map\<close>

text \<open>
  What \<open>search\<close> promises, stated on the map from names to files without the order
  of the dict: \<open>live_matches\<close> are the live names with the prefix, \<open>size_of\<close> is
  \<open>convert_file_size\<close> of a file's size string.
\<close>

definition live_matches :: "int \<Rightarrow> string \<Rightarrow> (string \<rightharpoonup> file_obj) \<Rightarrow> string set" where
  "live_matches at_ts prefix m =
     {name. startswith name prefix \<and> (case m name of None \<Rightarrow> False | Some obj \<Rightarrow> is_alive at_ts obj)}"

definition size_of :: "(string \<rightharpoonup> file_obj) \<Rightarrow> string \<Rightarrow> py_error + int" where
  "size_of m name = convert_file_size (file_size (the (m name)))"

definition search_spec :: "int \<Rightarrow> string \<Rightarrow> bool \<Rightarrow> (string \<rightharpoonup> file_obj) \<Rightarrow> py_error + string list" where
  "search_spec at_ts prefix alphabetical_only m =
     (let names = live_matches at_ts prefix m
      in if alphabetical_only then Inr (take 10 (sorted_list_of_set names))
         else if \<exists>name\<in>names. isl (size_of m name) then Inl ValueError
         else Inr (map snd (take 10 (sorted_list_of_set
                     ((\<lambda>name. (- projr (size_of m name), name)) ` names)))))"

section \<open>Properties of the store operations\<close>

lemma map_of_upload [simp]: "map_of (AList.update k v db) = (map_of db)(k \<mapsto> v)"
  by (rule update_conv')

lemma file_obj_copy [simp]:
  "\<lparr>file_size = file_size x, created_at = created_at x, ttl_seconds = ttl_seconds x\<rparr> = x"
  by (cases x) simp

lemma fs_get_Some: "fs_get at_ts name db = Some obj \<longleftrightarrow> map_of db name = Some obj \<and> is_alive at_ts obj"
  by (auto simp: fs_get_def split: option.splits)

lemma fs_upload_result:
  "fs_upload at_ts name sz ttl db = Inr db' \<Longrightarrow>
     db' = AList.update name \<lparr>file_size = sz, created_at = at_ts, ttl_seconds = ttl\<rparr> db"
  by (auto simp: fs_upload_def split: if_splits)

text \<open>
  C13: a file just uploaded is found at the upload time, with the stored size, time and
  TTL, unless its TTL is not positive.
\<close>

theorem fs_upload_then_get:
  assumes "fs_upload at_ts name sz ttl db = Inr db'"
    and "case ttl of None \<Rightarrow> True | Some t \<Rightarrow> 0 < t"
  shows "fs_get at_ts name db' = Some \<lparr>file_size = sz, created_at = at_ts, ttl_seconds = ttl\<rparr>"
  using fs_upload_result [OF assms(1)] assms(2)
  by (simp add: fs_get_def is_alive_def split: option.splits)

theorem fs_upload_then_get_witness:
  "fs_get 5 ''a'' [(''a'', \<lparr>file_size = ''1kb'', created_at = 5, ttl_seconds = Some 3\<rparr>)]
     = Some \<lparr>file_size = ''1kb'', created_at = 5, ttl_seconds = Some 3\<rparr>"
proof -
  have "fs_upload 5 ''a'' ''1kb'' (Some 3) [] =
          Inr [(''a'', \<lparr>file_size = ''1kb'', created_at = 5, ttl_seconds = Some 3\<rparr>)]"
    by (simp add: fs_upload_def)
  then show ?thesis using fs_upload_then_get [of 5 "''a''" "''1kb''" "Some 3" "[]"] by simp
qed

text \<open>
  C14: a file uploaded at \<open>t0\<close> with TTL \<open>d\<close> is no longer found from \<open>t0 + d\<close> on.
\<close>

theorem fs_ttl_expiry:
  assumes "fs_upload at_ts name sz (Some d) db = Inr db'" and "at_ts + d \<le> t"
  shows "fs_get t name db' = None"
  using fs_upload_result [OF assms(1)] assms(2) by (simp add: fs_get_def is_alive_def)

theorem fs_ttl_expiry_witness: "fs_get 8 ''a'' [(''a'', \<lparr>file_size = ''1kb'', created_at = 5, ttl_seconds = Some 3\<rparr>)] = None"
proof -
  have "fs_upload 5 ''a'' ''1kb'' (Some 3) [] =
          Inr [(''a'', \<lparr>file_size = ''1kb'', created_at = 5, ttl_seconds = Some 3\<rparr>)]"
    by (simp add: fs_upload_def)
  then show ?thesis using fs_ttl_expiry [of 5 "''a''" "''1kb''" 3 "[]" _ 8] by simp
qed

text \<open>
  C15: an upload fails with \<open>RuntimeError\<close> exactly when a file of that name is alive
  at the upload time; an expired file is overwritten.
\<close>

theorem fs_upload_error_iff:
  "fs_upload at_ts name sz ttl db = Inl RuntimeError \<longleftrightarrow> fs_get at_ts name db \<noteq> None"
  by (auto simp: fs_upload_def fs_get_def split: option.splits)

text \<open>
  C16: a copy inherits the source's creation time and TTL: at every later time the copy
  is found exactly when, and as, the source would have been.
\<close>

theorem fs_copy_inherits:
  assumes "fs_copy at_ts src dest db = Inr db'"
  shows "fs_get t dest db' = fs_get t src db"
proof -
  obtain obj where obj: "fs_get at_ts src db = Some obj"
      and db': "db' = AList.update dest obj db"
    using assms by (auto simp: fs_copy_def split: option.splits)
  then have "map_of db src = Some obj" by (simp add: fs_get_Some)
  with db' show ?thesis by (simp add: fs_get_def)
qed

theorem fs_copy_inherits_witness:
  "fs_get 9 ''b'' [(''a'', \<lparr>file_size = ''1'', created_at = 5, ttl_seconds = Some 3\<rparr>),
                  (''b'', \<lparr>file_size = ''1'', created_at = 5, ttl_seconds = Some 3\<rparr>)] = None"
proof -
  let ?db = "[(''a'', \<lparr>file_size = ''1'', created_at = 5, ttl_seconds = Some 3\<rparr>)]"
  have c: "fs_copy 6 ''a'' ''b'' ?db =
      Inr [(''a'', \<lparr>file_size = ''1'', created_at = 5, ttl_seconds = Some 3\<rparr>),
           (''b'', \<lparr>file_size = ''1'', created_at = (5::int), ttl_seconds = Some 3\<rparr>)]"
    by (simp add: fs_copy_def fs_get_def is_alive_def)
  have "fs_get 9 ''a'' ?db = None" by (simp add: fs_get_def is_alive_def)
  then show ?thesis using fs_copy_inherits [OF c, of 9] by simp
qed

section \<open>Properties of search\<close>

lemma matching_alive:
  assumes "distinct (map fst db)" and "(name, obj) \<in> set (matching at_ts prefix db)"
  shows "startswith name prefix \<and> fs_get at_ts name db = Some obj"
  using assms by (auto simp: matching_def fs_get_Some)

lemma take_sorted_list_of_set:
  assumes "finite S"
  shows "sorted (take k (sorted_list_of_set S)) \<and> distinct (take k (sorted_list_of_set S))
         \<and> set (take k (sorted_list_of_set S)) \<subseteq> S
         \<and> length (take k (sorted_list_of_set S)) = min k (card S)
         \<and> (\<forall>y\<in>S - set (take k (sorted_list_of_set S)). \<forall>x\<in>set (take k (sorted_list_of_set S)). x < y)"
proof -
  let ?ys = "sorted_list_of_set S"
  have sw: "sorted_wrt (<) (take k ?ys @ drop k ?ys)" by simp
  have "y \<in> set (drop k ?ys)" if "y \<in> S - set (take k ?ys)" for y
    using that assms by (metis DiffE Un_iff append_take_drop_id set_append set_sorted_list_of_set)
  then have "\<forall>y\<in>S - set (take k ?ys). \<forall>x\<in>set (take k ?ys). x < y"
    using sw by (auto simp only: sorted_wrt_append)
  moreover have "set (take k ?ys) \<subseteq> S" using assms by (metis set_sorted_list_of_set set_take_subset)
  ultimately show ?thesis by simp
qed

text \<open>
  The first \<open>k\<close> names of \<open>S\<close> ordered by the key \<open>(f n, n)\<close>, as the search lists them
  by size.
\<close>

lemma take_sorted_keys:
  assumes "finite S" and names_def: "names = map snd (take k (sorted_list_of_set ((\<lambda>n. (f n, n)) ` S)))"
  shows "distinct names \<and> set names \<subseteq> S \<and> length names = min k (card S)
         \<and> sorted (map (\<lambda>n. (f n, n)) names)
         \<and> (\<forall>y\<in>S - set names. \<forall>x\<in>set names. (f x, x) < (f y, y))"
proof -
  let ?g = "\<lambda>n. (f n, n)"
  let ?xs = "take k (sorted_list_of_set (?g ` S))"
  have inj: "inj ?g" by (auto simp: inj_def)
  have fin: "finite (?g ` S)" using assms(1) by simp
  note t = take_sorted_list_of_set [OF fin, of k]
  have sub: "set ?xs \<subseteq> ?g ` S" using t by blast
  have gk: "map ?g names = ?xs"
  proof -
    have "\<forall>p\<in>set ?xs. ?g (snd p) = p" using sub by auto
    then show ?thesis by (simp add: names_def map_idI)
  qed
  have "distinct (map ?g names)" using t by (simp only: gk)
  then have dn: "distinct names" by (simp add: distinct_map)
  have sn: "set names \<subseteq> S" using sub by (auto simp: names_def)
  have "length names = length ?xs" by (simp add: names_def)
  also have "\<dots> = min k (card (?g ` S))" using t by (simp only:)
  also have "card (?g ` S) = card S" by (rule card_image [OF inj_on_subset [OF inj subset_UNIV]])
  finally have ln: "length names = min k (card S)" .
  have "\<forall>y\<in>S - set names. \<forall>x\<in>set names. ?g x < ?g y"
  proof (intro ballI)
    fix y x assume y: "y \<in> S - set names" and x: "x \<in> set names"
    have "?g x \<in> set ?xs" using x by (simp only: gk [symmetric] set_map) (rule imageI)
    moreover have "?g y \<notin> set ?xs" using y by (force simp: names_def)
    ultimately show "?g x < ?g y" using t y by blast
  qed
  moreover have "sorted (map ?g names)" using t by (simp only: gk)
  ultimately show ?thesis using dn sn ln by blast
qed

lemma convert_file_size_error: "convert_file_size s = Inl e \<Longrightarrow> e = ValueError"
  by (auto simp: convert_file_size_def Let_def split: option.splits prod.splits if_splits)

lemma sized_entries_eq:
  "sized_entries xs =
     (if \<forall>(name, obj)\<in>set xs. \<not> isl (convert_file_size (file_size obj))
      then Inr (map (\<lambda>(name, obj). (name, projr (convert_file_size (file_size obj)))) xs)
      else Inl ValueError)"
  by (induction xs rule: sized_entries.induct)
     (auto split: sum.splits dest: convert_file_size_error)

lemma matching_mset:
  assumes "distinct (map fst db1)" "distinct (map fst db2)" "map_of db1 = map_of db2"
  shows "mset (matching t p db1) = mset (matching t p db2)"
proof -
  have "set db1 = set db2" using assms map_of_inject_set by blast
  moreover have "distinct db1" "distinct db2" using assms(1,2) distinct_map by auto
  ultimately show ?thesis by (simp add: matching_def set_eq_iff_mset_eq_distinct)
qed

lemma sort_key_mset_eq:
  "mset xs = mset ys \<Longrightarrow> inj f \<Longrightarrow> sort_key f xs = sort_key f ys"
  by (rule sort_key_inj_key_eq) (auto intro: inj_on_subset)

lemma live_matches_alist:
  assumes "distinct (map fst db)"
  shows "live_matches at_ts prefix (map_of db) = set (map fst (matching at_ts prefix db))"
  using assms
  by (auto simp: live_matches_def matching_def map_of_eq_Some_iff [OF assms] map_of_eq_None_iff
           split: option.splits intro: rev_image_eqI dest: eq_key_imp_eq_value [OF assms])

lemma live_matches_fs_get:
  "live_matches at_ts prefix (map_of db) = {n. startswith n prefix \<and> fs_get at_ts n db \<noteq> None}"
  by (auto simp: live_matches_def fs_get_def split: option.splits)

lemma finite_live_matches: "finite {n. startswith n prefix \<and> fs_get at_ts n db \<noteq> None}"
proof (rule finite_subset)
  show "{n. startswith n prefix \<and> fs_get at_ts n db \<noteq> None} \<subseteq> dom (map_of db)"
    by (auto simp: fs_get_def split: option.splits)
qed (rule finite_dom_map_of)

lemma sort_key_via_sort:
  assumes "inj_on f (set xs)"
  shows "map f (sort_key f xs) = sort (map f xs)"
proof -
  have "mset (map f (sort_key f xs)) = mset (map f xs)" by simp
  moreover have "sorted (map f (sort_key f xs))" by simp
  ultimately show ?thesis by (metis properties_for_sort)
qed

text \<open>
  On a store with distinct names the search computes \<open>search_spec\<close> on the dict seen as
  a map (the sort of the matching entries is the sorted list of their set).
\<close>

lemma fs_search_spec_eq:
  assumes dist: "distinct (map fst db)"
  shows "fs_search at_ts prefix alphabetical_only db = search_spec at_ts prefix alphabetical_only (map_of db)"
proof -
  let ?xs = "matching at_ts prefix db"
  let ?N = "live_matches at_ts prefix (map_of db)"
  have N: "?N = set (map fst ?xs)" by (rule live_matches_alist [OF dist])
  have dxs: "distinct (map fst ?xs)" using dist by (simp add: matching_def distinct_map_filter)
  have obj: "map_of db name = Some obj" if "(name, obj) \<in> set ?xs" for name obj
    using that dist by (auto simp: matching_def intro: map_of_is_SomeI)
  show ?thesis
  proof (cases alphabetical_only)
    case True
    have "sorted_list_of_set ?N = sort (map fst ?xs)"
      by (simp only: N sorted_list_of_set_sort_remdups distinct_remdups_id [OF dxs])
    then show ?thesis using True by (simp add: fs_search_def search_spec_def)
  next
    case False
    let ?conv = "\<lambda>(name :: string, obj). (name, projr (convert_file_size (file_size obj)))"
    let ?k = "\<lambda>(name :: string, m :: int). (- m, name)"
    let ?k' = "\<lambda>name. (- projr (size_of (map_of db) name), name)"
    have err: "(\<exists>name\<in>?N. isl (size_of (map_of db) name))
               \<longleftrightarrow> \<not> (\<forall>(name, obj)\<in>set ?xs. \<not> isl (convert_file_size (file_size obj)))"
      using N obj by (force simp: size_of_def)
    have keys: "map ?k (map ?conv ?xs) = map ?k' (map fst ?xs)"
      using obj by (auto simp: size_of_def)
    have inj: "inj_on ?k (set (map ?conv ?xs))" by (auto simp: inj_on_def)
    have dk: "distinct (map ?k' (map fst ?xs))"
      using dxs by (simp add: distinct_map inj_on_def)
    have "map fst (take 10 (sort_key ?k (map ?conv ?xs)))
            = map snd (take 10 (map ?k (sort_key ?k (map ?conv ?xs))))"
      by (simp add: take_map split_def)
    also have "\<dots> = map snd (take 10 (sort (map ?k' (map fst ?xs))))"
      by (simp only: sort_key_via_sort [OF inj] keys)
    also have "\<dots> = map snd (take 10 (sorted_list_of_set (?k' ` ?N)))"
      by (simp only: N set_map [symmetric] sorted_list_of_set_sort_remdups distinct_remdups_id [OF dk])
    finally show ?thesis
      using False err by (simp add: fs_search_def search_spec_def sized_entries_eq Let_def)
  qed
qed

text \<open>
  C17: in alphabetical mode (after a rollback) the search lists exactly the first ten live
  files whose name starts with the prefix, in name order: the names are sorted and
  distinct, each is live and matches, there are \<open>min 10 N\<close> of them for \<open>N\<close> live
  matching files, and every live matching file left out has a larger name than all listed.
\<close>

theorem fs_search_alphabetical:
  assumes "distinct (map fst db)"
  shows "let L = {n. startswith n prefix \<and> fs_get at_ts n db \<noteq> None} in
         \<exists>names. fs_search at_ts prefix True db = Inr names
           \<and> sorted names \<and> distinct names \<and> set names \<subseteq> L \<and> length names = min 10 (card L)
           \<and> (\<forall>n\<in>L - set names. \<forall>m\<in>set names. m < n)"
proof -
  let ?L = "{n. startswith n prefix \<and> fs_get at_ts n db \<noteq> None}"
  have "fs_search at_ts prefix True db = Inr (take 10 (sorted_list_of_set ?L))"
    using fs_search_spec_eq [OF assms] by (simp add: search_spec_def live_matches_fs_get)
  then show ?thesis
    using take_sorted_list_of_set [OF finite_live_matches, of 10 prefix at_ts db]
    unfolding Let_def by blast
qed

theorem fs_search_alphabetical_witness:
  "let db = map (\<lambda>name. (name, \<lparr>file_size = ''1'', created_at = 0, ttl_seconds = None\<rparr>))
              [''f9'', ''f1'', ''f8'', ''f2'', ''f7'', ''f3'', ''f6'', ''f4'', ''f5'', ''f0'', ''fa'', ''g'']
   in let L = {n. startswith n ''f'' \<and> fs_get 0 n db \<noteq> None} in
      \<exists>names. fs_search 0 ''f'' True db = Inr names
        \<and> sorted names \<and> distinct names \<and> set names \<subseteq> L \<and> length names = min 10 (card L)
        \<and> (\<forall>n\<in>L - set names. \<forall>m\<in>set names. m < n)"
  unfolding Let_def [of "map _ _"]
  by (rule fs_search_alphabetical) simp

text \<open>
  C18: when every live matching file has a size that parses, the search by size lists
  exactly the first ten of them ordered by the key (minus size, name), i.e. larger files
  first and equal sizes by name: the names are distinct, live and matching, sorted by the
  key, there are \<open>min 10 N\<close> of them, and every live matching file left out has a larger
  key than all listed.
\<close>

theorem fs_search_by_size_top:
  assumes "distinct (map fst db)"
    and "\<forall>n obj. startswith n prefix \<and> fs_get at_ts n db = Some obj
                 \<longrightarrow> \<not> isl (convert_file_size (file_size obj))"
  shows "let L = {n. startswith n prefix \<and> fs_get at_ts n db \<noteq> None};
             key = (\<lambda>n. (- projr (convert_file_size (file_size (the (fs_get at_ts n db)))), n)) in
         \<exists>names. fs_search at_ts prefix False db = Inr names
           \<and> distinct names \<and> set names \<subseteq> L \<and> length names = min 10 (card L)
           \<and> sorted (map key names) \<and> (\<forall>n\<in>L - set names. \<forall>m\<in>set names. key m < key n)"
proof -
  let ?L = "{n. startswith n prefix \<and> fs_get at_ts n db \<noteq> None}"
  let ?f = "\<lambda>n. - projr (convert_file_size (file_size (the (fs_get at_ts n db))))"
  have get: "map_of db n = fs_get at_ts n db" if "n \<in> ?L" for n
    using that by (auto simp: fs_get_def split: option.splits)
  have ok: "\<not> (\<exists>n\<in>?L. isl (size_of (map_of db) n))"
    using assms(2) get by (auto simp: size_of_def)
  have img: "(\<lambda>n. (- projr (size_of (map_of db) n), n)) ` ?L = (\<lambda>n. (?f n, n)) ` ?L"
    using get by (intro image_cong) (simp_all add: size_of_def)
  have "fs_search at_ts prefix False db
          = Inr (map snd (take 10 (sorted_list_of_set ((\<lambda>n. (?f n, n)) ` ?L))))"
    using fs_search_spec_eq [OF assms(1)] ok img
    by (simp add: search_spec_def live_matches_fs_get Let_def)
  then show ?thesis
    using take_sorted_keys [OF finite_live_matches refl, of 10 ?f prefix at_ts db]
    unfolding Let_def by blast
qed

theorem fs_search_by_size_top_witness:
  "let db = map (\<lambda>(name, sz). (name, \<lparr>file_size = sz, created_at = 0, ttl_seconds = None\<rparr>))
              [(''a'', ''5''), (''b'', ''5 b''), (''c'', ''1kb''), (''d'', ''1K''), (''e'', ''1024''),
               (''f'', ''1kb''), (''g'', ''1kb''), (''h'', ''1kb''), (''i'', ''1kb''), (''j'', ''1kb''),
               (''k'', ''1kb'')]
   in let L = {n. startswith n [] \<and> fs_get 0 n db \<noteq> None};
          key = (\<lambda>n. (- projr (convert_file_size (file_size (the (fs_get 0 n db)))), n)) in
      \<exists>names. fs_search 0 [] False db = Inr names
        \<and> distinct names \<and> set names \<subseteq> L \<and> length names = min 10 (card L)
        \<and> sorted (map key names) \<and> (\<forall>n\<in>L - set names. \<forall>m\<in>set names. key m < key n)"
  unfolding Let_def [of "map _ _"]
proof (rule fs_search_by_size_top)
  let ?db = "map (\<lambda>(name, sz). (name, \<lparr>file_size = sz, created_at = (0::int), ttl_seconds = None\<rparr>))
              [(''a'', ''5''), (''b'', ''5 b''), (''c'', ''1kb''), (''d'', ''1K''), (''e'', ''1024''),
               (''f'', ''1kb''), (''g'', ''1kb''), (''h'', ''1kb''), (''i'', ''1kb''), (''j'', ''1kb''),
               (''k'', ''1kb'')]"
  show "distinct (map fst ?db)" by simp
  have "\<forall>(n, obj)\<in>set ?db. \<not> isl (convert_file_size (file_size obj))" by code_simp
  then show "\<forall>n obj. startswith n [] \<and> fs_get 0 n ?db = Some obj
                 \<longrightarrow> \<not> isl (convert_file_size (file_size obj))"
    by (auto simp: fs_get_def split: option.splits if_splits dest!: map_of_SomeD)
qed

text \<open>
  C19: the search result depends only on the files, not on the order in which the dict
  holds them: two stores with the same entries give the same answer or the same error.
\<close>

theorem fs_search_order_independent:
  assumes "distinct (map fst db1)" "distinct (map fst db2)" "map_of db1 = map_of db2"
  shows "fs_search t p alphabetical_only db1 = fs_search t p alphabetical_only db2"
proof -
  let ?m1 = "matching t p db1" and ?m2 = "matching t p db2"
  let ?conv = "\<lambda>(name :: string, obj). (name, projr (convert_file_size (file_size obj)))"
  let ?k = "\<lambda>(name :: string, m :: int). (- m, name)"
  have m: "mset ?m1 = mset ?m2" by (rule matching_mset [OF assms])
  have s: "set ?m1 = set ?m2" using m by (metis set_mset_mset)
  have inj: "inj ?k" by (auto simp: inj_def)
  have a: "sort (map fst ?m1) = sort (map fst ?m2)"
    using m by (intro sort_key_mset_eq) simp_all
  have b: "sort_key ?k (map ?conv ?m1) = sort_key ?k (map ?conv ?m2)"
    using m by (intro sort_key_mset_eq [OF _ inj]) simp
  show ?thesis
  proof (cases alphabetical_only)
    case True
    then show ?thesis using a by (simp add: fs_search_def)
  next
    case False
    then show ?thesis using b s by (simp add: fs_search_def sized_entries_eq)
  qed
qed

theorem fs_search_order_independent_witness:
  "fs_search 0 ''f'' False
     [(''f1'', \<lparr>file_size = ''2'', created_at = 0, ttl_seconds = None\<rparr>),
      (''f2'', \<lparr>file_size = ''2'', created_at = 0, ttl_seconds = None\<rparr>)]
   = fs_search 0 ''f'' False
     [(''f2'', \<lparr>file_size = ''2'', created_at = 0, ttl_seconds = None\<rparr>),
      (''f1'', \<lparr>file_size = ''2'', created_at = 0, ttl_seconds = None\<rparr>)]"
  by (rule fs_search_order_independent) (simp_all add: fun_eq_iff)

lemma map_of_rollback:
  "map_of (fs_rollback t db) n = map_option (\<lambda>obj. obj\<lparr>created_at := t\<rparr>) (map_of db n)"
  by (induction db) (auto simp: fs_rollback_def)

lemma map_fst_rollback [simp]: "map fst (fs_rollback t db) = map fst db"
  by (induction db) (auto simp: fs_rollback_def)

text \<open>
  C20: rollback to \<open>t\<close> restarts every TTL at \<open>t\<close>: a file with TTL \<open>d\<close> is found
  after the rollback exactly before \<open>t + d\<close>, even when it had already expired.
\<close>

theorem fs_rollback_revives:
  assumes "map_of db n = Some obj" and "ttl_seconds obj = Some d"
  shows "fs_get t' n (fs_rollback t db) \<noteq> None \<longleftrightarrow> t' < t + d"
  using assms by (simp add: fs_get_def map_of_rollback is_alive_def)

theorem fs_rollback_revives_witness:
  "fs_get 10 ''a'' [(''a'', \<lparr>file_size = ''1'', created_at = 0, ttl_seconds = Some 5\<rparr>)] = None
   \<and> fs_get 12 ''a'' (fs_rollback 10 [(''a'', \<lparr>file_size = ''1'', created_at = 0, ttl_seconds = Some 5\<rparr>)]) \<noteq> None"
proof -
  have "fs_get 12 ''a'' (fs_rollback 10 [(''a'', \<lparr>file_size = ''1'', created_at = 0, ttl_seconds = Some 5\<rparr>)]) \<noteq> None
        \<longleftrightarrow> (12::int) < 10 + 5"
    by (rule fs_rollback_revives [where obj = "\<lparr>file_size = ''1'', created_at = 0, ttl_seconds = Some 5\<rparr>"]) simp_all
  then show ?thesis by (simp add: fs_get_def is_alive_def fs_rollback_def)
qed

lemma digit_not_space: "is_digit c \<Longrightarrow> \<not> is_space c"
  by (auto simp: is_digit_def is_space_def less_eq_char_def)

lemma alpha_not_space: "is_alpha c \<Longrightarrow> \<not> is_space c"
  by (auto simp: is_alpha_def is_space_def less_eq_char_def)

lemma alpha_not_digit: "is_alpha c \<Longrightarrow> \<not> is_digit c"
  by (auto simp: is_alpha_def is_digit_def less_eq_char_def)

lemma of_char_digit: "(k::nat) < 10 \<Longrightarrow> of_char (char_of (48 + k)) = 48 + k"
  by (simp add: of_char_of)

lemma nat_digits_digits: "nat_digits n \<noteq> [] \<and> list_all is_digit (nat_digits n)"
proof (induction n rule: nat_digits.induct)
  case (1 n)
  then show ?case by (auto simp: nat_digits.simps [of n] is_digit_def less_eq_char_def of_char_digit)
qed

lemma digits_value_nat_digits: "digits_value (nat_digits n) = int n"
proof (induction n rule: nat_digits.induct)
  case (1 n)
  show ?case
  proof (cases "n < 10")
    case True
    then show ?thesis
      by (simp add: nat_digits.simps [of n] digits_value_def digit_val_def of_char_digit)
  next
    case False
    have "int n = 10 * int (n div 10) + int (n mod 10)" by (simp add: of_nat_div of_nat_mod)
    then show ?thesis using 1 False
      by (simp add: nat_digits.simps [of n] digits_value_def digit_val_def of_char_digit)
  qed
qed

lemma size_match_digits_unit:
  assumes "ds \<noteq> []" "list_all is_digit ds" "list_all is_alpha u"
  shows "size_match (ds @ u) = Some (ds, u)"
proof -
  have u_nd: "takeWhile is_digit u = []" "dropWhile is_digit u = u"
    using assms(3) alpha_not_digit by (cases u; simp)+
  have u_ns: "dropWhile is_space u = u"
    using assms(3) alpha_not_space by (cases u; simp)
  have hd: "\<not> is_space (hd (ds @ u))"
    using assms(1,2) digit_not_space by (cases ds) auto
  have d1: "dropWhile is_space (ds @ u) = ds @ u"
    using hd assms(1) by (cases ds) auto
  have d2: "takeWhile is_digit (ds @ u) = ds" "dropWhile is_digit (ds @ u) = u"
    using assms(2) u_nd by (simp_all add: list_all_iff)
  have d3: "takeWhile is_alpha u = u" "dropWhile is_alpha u = []"
    using assms(3) by (simp_all add: list_all_iff)
  show ?thesis using assms(1) by (simp add: size_match_def d1 d2 d3 u_ns)
qed

lemma convert_nat_digits:
  assumes "list_all is_alpha u"
  shows "convert_file_size (nat_digits n @ u) =
           (if map lower_char u \<in> {''kb'', ''k''} then Inr (int n * 1024)
            else if map lower_char u \<in> {''mb'', ''m''} then Inr (int n * 1024 * 1024)
            else if map lower_char u \<in> {''b'', []} then Inr (int n) else Inl ValueError)"
  using size_match_digits_unit [OF _ _ assms] nat_digits_digits [of n]
  by (simp add: convert_file_size_def digits_value_nat_digits)

text \<open>
  C21: \<open>convert_file_size\<close> reads back the decimal digits of any \<open>n\<close> followed by any
  unit of letters, in any letter case: the unit's lower-case spelling is looked up in the
  table of the code (\<open>kb\<close>/\<open>k\<close> 1024, \<open>mb\<close>/\<open>m\<close> 1024 * 1024, \<open>b\<close> or none 1) and the
  size is \<open>n\<close> times its factor; any other unit raises \<open>ValueError\<close>.
\<close>

theorem convert_file_size_roundtrip:
  assumes "list_all is_alpha u"
  shows "convert_file_size (nat_digits n @ u) =
           (case map_of [(''kb'', 1024), (''k'', 1024), (''mb'', 1024 * 1024), (''m'', 1024 * 1024),
                         (''b'', 1), ('''', 1)] (map lower_char u) of
              None \<Rightarrow> Inl ValueError
            | Some factor \<Rightarrow> Inr (int n * factor))"
  by (simp add: convert_nat_digits [OF assms])

theorem convert_file_size_roundtrip_witness:
  "convert_file_size ''42KB'' = Inr 43008 \<and> convert_file_size ''7Gb'' = Inl ValueError"
proof -
  have a: "list_all is_alpha ''KB''" "list_all is_alpha ''Gb''"
    by (simp_all add: is_alpha_def less_eq_char_def)
  have d: "nat_digits 42 = ''42''" "nat_digits 7 = ''7''" by code_simp+
  have l: "map lower_char ''KB'' = ''kb''" "map lower_char ''Gb'' = ''gb''" by code_simp+
  have "convert_file_size (nat_digits 42 @ ''KB'') =
          (case map_of [(''kb'', 1024), (''k'', 1024), (''mb'', 1024 * 1024), (''m'', 1024 * 1024),
                        (''b'', 1), ('''', 1)] (map lower_char ''KB'') of
             None \<Rightarrow> Inl ValueError | Some factor \<Rightarrow> Inr (int 42 * factor))"
    by (rule convert_file_size_roundtrip [OF a(1)])
  then have k: "convert_file_size ''42KB'' = Inr 43008" by (simp only: d l) simp
  have "convert_file_size (nat_digits 7 @ ''Gb'') =
          (case map_of [(''kb'', 1024), (''k'', 1024), (''mb'', 1024 * 1024), (''m'', 1024 * 1024),
                        (''b'', 1), ('''', 1)] (map lower_char ''Gb'') of
             None \<Rightarrow> Inl ValueError | Some factor \<Rightarrow> Inr (int 7 * factor))"
    by (rule convert_file_size_roundtrip [OF a(2)])
  then have g: "convert_file_size ''7Gb'' = Inl ValueError" by (simp only: d l) simp
  show ?thesis using k g by simp
qed

lemma fs_step_distinct:
  assumes "fs_step parse_ts st op = Inr (line, st')" and "distinct (map fst (db_files st))"
  shows "distinct (map fst (db_files st'))"
  using assms unfolding fs_step_def py_bind_def
  by (auto simp: fs_upload_def fs_copy_def distinct_update split: if_splits sum.splits option.splits)

text \<open>
  Every state the dispatcher reaches from the empty store holds each file name at most
  once, so the search theorems below, stated for stores with distinct names, apply to
  every store the simulation builds.
\<close>

lemma fs_reachable_distinct:
  "fs_reachable parse_ts st \<Longrightarrow> distinct (map fst (db_files st))"
  by (induction rule: fs_reachable.induct) (auto simp: fs_init_def dest: fs_step_distinct)

text \<open>
  C22: \<open>FILE_UPLOAD\<close> stores any size string; a live file whose size does not parse
  makes every size-ordered search over a prefix of its name raise \<open>ValueError\<close>.
\<close>

theorem fs_search_invalid_size:
  assumes "fs_get at_ts name db = Some obj" and "startswith name prefix"
    and "isl (convert_file_size (file_size obj))"
  shows "fs_search at_ts prefix False db = Inl ValueError"
proof -
  have "(name, obj) \<in> set (matching at_ts prefix db)"
    using assms(1,2) by (auto simp: fs_get_Some matching_def dest: map_of_SomeD)
  then show ?thesis using assms(3) by (force simp: fs_search_def sized_entries_eq)
qed

theorem fs_search_invalid_size_witness:
  "simulate_coding_framework py_int [[''FILE_UPLOAD'', ''a'', ''big''], [''FILE_SEARCH'', ''a'']] = Inl ValueError
   \<and> fs_search 0 ''a'' False [(''a'', \<lparr>file_size = ''big'', created_at = 0, ttl_seconds = None\<rparr>)]
       = Inl ValueError"
proof -
  have "fs_search 0 ''a'' False [(''a'', \<lparr>file_size = ''big'', created_at = 0, ttl_seconds = None\<rparr>)]
          = Inl ValueError"
    by (rule fs_search_invalid_size [where obj = "\<lparr>file_size = ''big'', created_at = 0, ttl_seconds = None\<rparr>"
          and name = "''a''"]) code_simp+
  moreover have "simulate_coding_framework py_int [[''FILE_UPLOAD'', ''a'', ''big''], [''FILE_SEARCH'', ''a'']]
                   = Inl ValueError"
    by code_simp
  ultimately show ?thesis by simp
qed

text \<open>
  C23: through the dispatcher, \<open>FILE_UPLOAD\<close> of a name followed by \<open>FILE_GET\<close> of
  it answers \<open>got\<close> and leaves the state unchanged.
\<close>

theorem fs_step_upload_then_get:
  assumes "fs_step parse_ts st [''FILE_UPLOAD'', name, sz] = Inr (line, st')"
  shows "line = ''uploaded '' @ name \<and> fs_step parse_ts st' [''FILE_GET'', name] = Inr (''got '' @ name, st')"
proof -
  obtain db where up: "fs_upload 0 name sz None (db_files st) = Inr db"
      and st': "st' = st\<lparr>db_files := db\<rparr>" and l: "line = ''uploaded '' @ name"
    using assms by (auto simp: fs_step_def nth_py_def py_bind_def split: sum.splits)
  have "fs_get 0 name db \<noteq> None"
    using fs_upload_result [OF up] by (simp add: fs_get_def is_alive_def)
  then show ?thesis using st' l by (simp add: fs_step_def nth_py_def)
qed

theorem fs_step_upload_then_get_witness:
  "fs_step py_int \<lparr>db_files = [(''a'', \<lparr>file_size = ''1'', created_at = 0, ttl_seconds = None\<rparr>)], rollback_mode = False\<rparr>
     [''FILE_GET'', ''a'']
   = Inr (''got a'', \<lparr>db_files = [(''a'', \<lparr>file_size = ''1'', created_at = 0, ttl_seconds = None\<rparr>)], rollback_mode = False\<rparr>)"
proof -
  have "fs_step py_int fs_init [''FILE_UPLOAD'', ''a'', ''1''] =
        Inr (''uploaded a'', \<lparr>db_files = [(''a'', \<lparr>file_size = ''1'', created_at = 0, ttl_seconds = None\<rparr>)],
                             rollback_mode = False\<rparr>)"
    by code_simp
  from fs_step_upload_then_get [OF this] show ?thesis by simp
qed

text \<open>
  C24: a command that names no operation raises \<open>RuntimeError\<close>, and an empty command
  raises \<open>IndexError\<close> (\<open>op[0]\<close>); neither touches the state.
\<close>

theorem fs_step_bad_command:
  "fs_step parse_ts st [] = Inl IndexError
   \<and> (cmd \<notin> {''FILE_UPLOAD'', ''FILE_GET'', ''FILE_COPY'', ''FILE_SEARCH'', ''FILE_UPLOAD_AT'',
              ''FILE_GET_AT'', ''FILE_COPY_AT'', ''FILE_SEARCH_AT'', ''ROLLBACK''}
      \<longrightarrow> fs_step parse_ts st (cmd # args) = Inl RuntimeError)"
  by (simp add: fs_step_def nth_py_def)

theorem fs_step_bad_command_witness:
  "fs_step py_int fs_init [] = Inl IndexError \<and> fs_step py_int fs_init [''FILE_DELETE'', ''a''] = Inl RuntimeError"
proof -
  have "''FILE_DELETE'' \<notin> {''FILE_UPLOAD'', ''FILE_GET'', ''FILE_COPY'', ''FILE_SEARCH'', ''FILE_UPLOAD_AT'',
              ''FILE_GET_AT'', ''FILE_COPY_AT'', ''FILE_SEARCH_AT'', ''ROLLBACK''}"
    by simp
  then show ?thesis using fs_step_bad_command [of py_int fs_init "''FILE_DELETE''" "[''a'']"] by simp
qed

text \<open>
  C27: on a store with distinct names (every reachable one, by \<open>fs_reachable_distinct\<close>) the search implements
  its contract on the dict seen as a map: alphabetically the first ten live names with
  the prefix, by size the first ten of them ordered by descending size then name, and
  \<open>ValueError\<close> when one of them has an unparsable size.
\<close>

theorem fs_search_refines_spec:
  assumes dist: "distinct (map fst db)"
  shows "fs_search at_ts prefix alphabetical_only db = search_spec at_ts prefix alphabetical_only (map_of db)"
  by (rule fs_search_spec_eq [OF dist])

theorem fs_search_refines_spec_witness:
  "fs_search 0 ''f'' False
     [(''f2'', \<lparr>file_size = ''1kb'', created_at = 0, ttl_seconds = None\<rparr>),
      (''f1'', \<lparr>file_size = ''2kb'', created_at = 0, ttl_seconds = Some 5\<rparr>)]
   = search_spec 0 ''f'' False
       (map_of [(''f2'', \<lparr>file_size = ''1kb'', created_at = 0, ttl_seconds = None\<rparr>),
                (''f1'', \<lparr>file_size = ''2kb'', created_at = 0, ttl_seconds = Some 5\<rparr>)])"
  by (rule fs_search_refines_spec) simp

end
