(* ===== verification/Timestamps.thy ===== *)
theory Timestamps
  imports File_Storage
begin

text \<open>
  \<open>parse_ts\<close> of \<open>file_storage/simulation.py\<close>:
  \<open>datetime.strptime(ts, "%Y-%m-%dT%H:%M:%S").replace(tzinfo=timezone.utc)\<close>, then
  \<open>int(dt.timestamp())\<close>. \<open>strptime\<close> compiles the format into the pattern
  \<open>(\d\d\d\d)-(1[0-2]|0[1-9]|[1-9])-(3[0-1]|[1-2]\d|0[1-9]|[1-9]| [1-9])T(2[0-3]|[0-1]\d|\d):([0-5]\d|\d):(6[0-1]|[0-5]\d|\d)\<close>
  (CPython \<open>_strptime.TimeRE\<close>), matched from the start and ignoring case, and raises
  \<open>ValueError\<close> when it does not match or text remains after the match. The fields
  go through \<open>datetime\<close>'s range checks (year 1 to 9999, the day within its month,
  second at most 59), each a \<open>ValueError\<close>, and the UTC timestamp is the proleptic
  Gregorian ordinal (\<open>_ymd2ord\<close>) less that of 1970-01-01, in seconds.
\<close>

section \<open>The pattern\<close>

text \<open>
  Each field's alternatives hold only digits and a space, none of the separators
  \<open>-\<close>, \<open>T\<close>/\<open>t\<close> and \<open>:\<close>; so the regular expression matches exactly when every
  field is the text up to its separator and lies in its alternation, and the last
  field, after which \<open>strptime\<close> requires the end of the string, is the whole rest.
\<close>

definition char_in :: "char \<Rightarrow> char \<Rightarrow> char \<Rightarrow> bool" where
  "char_in lo hi c \<longleftrightarrow> lo \<le> c \<and> c \<le> hi"

definition re_year :: "string \<Rightarrow> bool" where
  "re_year f \<longleftrightarrow> length f = 4 \<and> list_all is_digit f"

fun re_month :: "string \<Rightarrow> bool" where
  "re_month [a, b] \<longleftrightarrow>
     (a = CHR ''1'' \<and> char_in CHR ''0'' CHR ''2'' b) \<or> (a = CHR ''0'' \<and> char_in CHR ''1'' CHR ''9'' b)"
| "re_month [a] \<longleftrightarrow> char_in CHR ''1'' CHR ''9'' a"
| "re_month _ \<longleftrightarrow> False"

fun re_day :: "string \<Rightarrow> bool" where
  "re_day [a, b] \<longleftrightarrow>
     (a = CHR ''3'' \<and> char_in CHR ''0'' CHR ''1'' b) \<or> (char_in CHR ''1'' CHR ''2'' a \<and> is_digit b)
     \<or> (a = CHR ''0'' \<and> char_in CHR ''1'' CHR ''9'' b) \<or> (a = CHR '' '' \<and> char_in CHR ''1'' CHR ''9'' b)"
| "re_day [a] \<longleftrightarrow> char_in CHR ''1'' CHR ''9'' a"
| "re_day _ \<longleftrightarrow> False"

fun re_hour :: "string \<Rightarrow> bool" where
  "re_hour [a, b] \<longleftrightarrow> (a = CHR ''2'' \<and> char_in CHR ''0'' CHR ''3'' b) \<or> (char_in CHR ''0'' CHR ''1'' a \<and> is_digit b)"
| "re_hour [a] \<longleftrightarrow> is_digit a"
| "re_hour _ \<longleftrightarrow> False"

fun re_minute :: "string \<Rightarrow> bool" where
  "re_minute [a, b] \<longleftrightarrow> char_in CHR ''0'' CHR ''5'' a \<and> is_digit b"
| "re_minute [a] \<longleftrightarrow> is_digit a"
| "re_minute _ \<longleftrightarrow> False"

fun re_second :: "string \<Rightarrow> bool" where
  "re_second [a, b] \<longleftrightarrow> (a = CHR ''6'' \<and> char_in CHR ''0'' CHR ''1'' b) \<or> (char_in CHR ''0'' CHR ''5'' a \<and> is_digit b)"
| "re_second [a] \<longleftrightarrow> is_digit a"
| "re_second _ \<longleftrightarrow> False"

text \<open>The text before the first separator and the text after it, if there is one.\<close>

definition split_field :: "(char \<Rightarrow> bool) \<Rightarrow> string \<Rightarrow> (string \<times> string) option" where
  "split_field sep s =
     (let f = takeWhile (\<lambda>c. \<not> sep c) s
      in if length f < length s then Some (f, drop (Suc (length f)) s) else None)"

text \<open>\<open>int(found_dict[...])\<close>: \<open>int(" 5")\<close> ignores the space of the day's last alternative.\<close>

definition field_int :: "string \<Rightarrow> int" where
  "field_int f = digits_value (filter is_digit f)"

record ts_fields =
  ts_year :: int
  ts_month :: int
  ts_day :: int
  ts_hour :: int
  ts_minute :: int
  ts_second :: int

definition strptime_fields :: "string \<Rightarrow> py_error + ts_fields" where
  "strptime_fields s =
     (case split_field (\<lambda>c. c = CHR ''-'') s of None \<Rightarrow> Inl ValueError | Some (y, r1) \<Rightarrow>
      case split_field (\<lambda>c. c = CHR ''-'') r1 of None \<Rightarrow> Inl ValueError | Some (m, r2) \<Rightarrow>
      case split_field (\<lambda>c. c = CHR ''T'' \<or> c = CHR ''t'') r2 of None \<Rightarrow> Inl ValueError | Some (d, r3) \<Rightarrow>
      case split_field (\<lambda>c. c = CHR '':'') r3 of None \<Rightarrow> Inl ValueError | Some (h, r4) \<Rightarrow>
      case split_field (\<lambda>c. c = CHR '':'') r4 of None \<Rightarrow> Inl ValueError | Some (mi, sec) \<Rightarrow>
        if re_year y \<and> re_month m \<and> re_day d \<and> re_hour h \<and> re_minute mi \<and> re_second sec
        then Inr \<lparr>ts_year = field_int y, ts_month = field_int m, ts_day = field_int d,
                  ts_hour = field_int h, ts_minute = field_int mi, ts_second = field_int sec\<rparr>
        else Inl ValueError)"

section \<open>The calendar of \<open>datetime\<close>\<close>

definition is_leap :: "int \<Rightarrow> bool" where
  "is_leap year \<longleftrightarrow> year mod 4 = 0 \<and> (year mod 100 \<noteq> 0 \<or> year mod 400 = 0)"

definition days_before_year :: "int \<Rightarrow> int" where
  "days_before_year year = (let y = year - 1 in y * 365 + y div 4 - y div 100 + y div 400)"

definition month_days :: "int list" where
  "month_days = [31, 28, 31, 30, 31, 30, 31, 31, 30, 31, 30, 31]"

definition days_in_month :: "int \<Rightarrow> int \<Rightarrow> int" where
  "days_in_month year month =
     (if month = 2 \<and> is_leap year then 29 else month_days ! nat (month - 1))"

definition days_before_month :: "int \<Rightarrow> int \<Rightarrow> int" where
  "days_before_month year month =
     sum_list (take (nat (month - 1)) month_days) + (if month > 2 \<and> is_leap year then 1 else 0)"

definition ymd2ord :: "int \<Rightarrow> int \<Rightarrow> int \<Rightarrow> int" where
  "ymd2ord year month day = days_before_year year + days_before_month year month + day"

text \<open>\<open>_check_date_fields\<close> and \<open>_check_time_fields\<close>.\<close>

definition fields_ok :: "ts_fields \<Rightarrow> bool" where
  "fields_ok t \<longleftrightarrow>
     1 \<le> ts_year t \<and> ts_year t \<le> 9999 \<and> 1 \<le> ts_month t \<and> ts_month t \<le> 12
     \<and> 1 \<le> ts_day t \<and> ts_day t \<le> days_in_month (ts_year t) (ts_month t)
     \<and> 0 \<le> ts_hour t \<and> ts_hour t \<le> 23 \<and> 0 \<le> ts_minute t \<and> ts_minute t \<le> 59
     \<and> 0 \<le> ts_second t \<and> ts_second t \<le> 59"

text \<open>\<open>(dt - _EPOCH).total_seconds()\<close>; the ordinal of 1970-01-01 is 719163.\<close>

definition epoch_seconds :: "ts_fields \<Rightarrow> int" where
  "epoch_seconds t =
     (ymd2ord (ts_year t) (ts_month t) (ts_day t) - 719163) * 86400
     + ts_hour t * 3600 + ts_minute t * 60 + ts_second t"

definition parse_ts :: "string \<Rightarrow> py_error + int" where
  "parse_ts ts =
     py_bind (strptime_fields ts) (\<lambda>t. if fields_ok t then Inr (epoch_seconds t) else Inl ValueError)"

section \<open>Writing a timestamp\<close>

text \<open>
  \<open>dt.strftime("%Y-%m-%dT%H:%M:%S")\<close>: the fields zero-padded to four and two digits;
  used to state the round trip of \<open>parse_ts\<close>.
\<close>

definition digit_char :: "int \<Rightarrow> char" where
  "digit_char k = char_of (48 + nat k)"

definition pad2 :: "int \<Rightarrow> string" where
  "pad2 n = [digit_char (n div 10), digit_char (n mod 10)]"

definition pad4 :: "int \<Rightarrow> string" where
  "pad4 n = [digit_char (n div 1000), digit_char (n div 100 mod 10), digit_char (n div 10 mod 10),
             digit_char (n mod 10)]"

definition format_ts :: "ts_fields \<Rightarrow> string" where
  "format_ts t =
     pad4 (ts_year t) @ ''-'' @ pad2 (ts_month t) @ ''-'' @ pad2 (ts_day t) @ ''T''
     @ pad2 (ts_hour t) @ '':'' @ pad2 (ts_minute t) @ '':'' @ pad2 (ts_second t)"


section \<open>Lemmas: digits and fields\<close>


lemma of_char_digit_char: "0 \<le> k \<Longrightarrow> k < 10 \<Longrightarrow> of_char (digit_char k) = 48 + nat k"
  by (simp add: digit_char_def of_char_of)

lemma digit_char_lits:
  "CHR ''0'' = digit_char 0" "CHR ''1'' = digit_char 1" "CHR ''2'' = digit_char 2"
  "CHR ''3'' = digit_char 3" "CHR ''5'' = digit_char 5" "CHR ''6'' = digit_char 6"
  "CHR ''9'' = digit_char 9"
  by code_simp+

lemma char_in_digit_char:
  "0 \<le> a \<Longrightarrow> a < 10 \<Longrightarrow> 0 \<le> b \<Longrightarrow> b < 10 \<Longrightarrow> 0 \<le> k \<Longrightarrow> k < 10 \<Longrightarrow>
     char_in (digit_char a) (digit_char b) (digit_char k) \<longleftrightarrow> a \<le> k \<and> k \<le> b"
  by (auto simp: char_in_def less_eq_char_def of_char_digit_char)

lemma digit_char_eq:
  "0 \<le> a \<Longrightarrow> a < 10 \<Longrightarrow> 0 \<le> k \<Longrightarrow> k < 10 \<Longrightarrow> digit_char k = digit_char a \<longleftrightarrow> k = a"
  by (metis of_char_digit_char nat_int add_left_cancel int_nat_eq not_less)

lemma is_digit_digit_char: "0 \<le> k \<Longrightarrow> k < 10 \<Longrightarrow> is_digit (digit_char k)"
  by (simp add: is_digit_def less_eq_char_def of_char_digit_char)

lemma digit_not_sep:
  "is_digit c \<Longrightarrow> c \<noteq> CHR ''-'' \<and> c \<noteq> CHR ''T'' \<and> c \<noteq> CHR ''t'' \<and> c \<noteq> CHR '':''"
  by (auto simp: is_digit_def less_eq_char_def)

lemma split_field_digits:
  assumes "list_all is_digit f" "\<And>c. is_digit c \<Longrightarrow> \<not> sep c" "sep x"
  shows "split_field sep (f @ x # rest) = Some (f, rest)"
proof -
  have "takeWhile (\<lambda>c. \<not> sep c) (f @ x # rest) = f"
    using assms by (simp add: takeWhile_append2 list_all_iff)
  then show ?thesis by (simp add: split_field_def)
qed

lemma digits_pad2: "0 \<le> n \<Longrightarrow> n < 100 \<Longrightarrow> list_all is_digit (pad2 n)"
  by (simp add: pad2_def is_digit_digit_char)

lemma digits_pad4: "0 \<le> n \<Longrightarrow> n < 10000 \<Longrightarrow> list_all is_digit (pad4 n)"
  by (simp add: pad4_def is_digit_digit_char)

lemma digit_val_digit_char: "0 \<le> k \<Longrightarrow> k < 10 \<Longrightarrow> digit_val (digit_char k) = k"
  by (simp add: digit_val_def of_char_digit_char)

lemma field_int_pad2: "0 \<le> n \<Longrightarrow> n < 100 \<Longrightarrow> field_int (pad2 n) = n"
  by (simp add: field_int_def pad2_def digits_value_def is_digit_digit_char digit_val_digit_char)

lemma decimal_4:
  fixes n q1 q2 q3 r0 r1 r2 :: int
  shows "n = 10 * q1 + r0 \<Longrightarrow> q1 = 10 * q2 + r1 \<Longrightarrow> q2 = 10 * q3 + r2 \<Longrightarrow>
         n = 1000 * q3 + 100 * r2 + 10 * r1 + r0"
  by simp

lemma decimal_split_4:
  "(n::int) = 1000 * (n div 1000) + 100 * (n div 100 mod 10) + 10 * (n div 10 mod 10) + n mod 10"
proof -
  have d: "n div 100 = n div 10 div 10" "n div 1000 = n div 100 div 10"
    by (simp_all add: zdiv_zmult2_eq)
  show ?thesis unfolding d by (rule decimal_4) (rule mult_div_mod_eq [symmetric])+
qed

lemma field_int_pad4:
  assumes "0 \<le> n" "n < 10000"
  shows "field_int (pad4 n) = n"
proof -
  have b: "0 \<le> n div 1000" "n div 1000 < 10" using assms by auto
  have "field_int (pad4 n) = 1000 * (n div 1000) + 100 * (n div 100 mod 10) + 10 * (n div 10 mod 10) + n mod 10"
    using b by (simp add: field_int_def pad4_def digits_value_def is_digit_digit_char digit_val_digit_char)
  then show ?thesis using decimal_split_4 [of n] by simp
qed

lemmas pad_digit_simps = digit_char_lits char_in_digit_char digit_char_eq is_digit_digit_char

lemma re_month_pad2: "1 \<le> n \<Longrightarrow> n \<le> 12 \<Longrightarrow> re_month (pad2 n)"
  by (simp add: pad2_def pad_digit_simps) presburger

lemma re_day_pad2:
  assumes "1 \<le> n" "n \<le> 31"
  shows "re_day (pad2 n)"
proof -
  have "n div 10 = 3 \<and> n mod 10 \<le> 1 \<or> 1 \<le> n div 10 \<and> n div 10 \<le> 2
        \<or> n div 10 = 0 \<and> 1 \<le> n mod 10 \<and> n mod 10 \<le> 9"
    using assms by presburger
  then show ?thesis using assms by (auto simp: pad2_def pad_digit_simps)
qed

lemma re_hour_pad2: "0 \<le> n \<Longrightarrow> n \<le> 23 \<Longrightarrow> re_hour (pad2 n)"
  by (simp add: pad2_def pad_digit_simps) presburger

lemma re_minute_pad2: "0 \<le> n \<Longrightarrow> n \<le> 59 \<Longrightarrow> re_minute (pad2 n)"
  by (simp add: pad2_def pad_digit_simps) presburger

lemma re_second_pad2: "0 \<le> n \<Longrightarrow> n \<le> 59 \<Longrightarrow> re_second (pad2 n)"
  by (simp add: pad2_def pad_digit_simps) presburger

lemmas re_pad2 = re_month_pad2 re_day_pad2 re_hour_pad2 re_minute_pad2 re_second_pad2

lemma re_pad4: "0 \<le> n \<Longrightarrow> n < 10000 \<Longrightarrow> re_year (pad4 n)"
  by (simp add: re_year_def pad4_def is_digit_digit_char)

lemma strptime_fields_digits:
  assumes "list_all is_digit y" "list_all is_digit m" "list_all is_digit d" "list_all is_digit h"
    "list_all is_digit mi"
  shows "strptime_fields (y @ CHR ''-'' # m @ CHR ''-'' # d @ CHR ''T'' # h @ CHR '':'' # mi @ CHR '':'' # sec) =
    (if re_year y \<and> re_month m \<and> re_day d \<and> re_hour h \<and> re_minute mi \<and> re_second sec
     then Inr \<lparr>ts_year = field_int y, ts_month = field_int m, ts_day = field_int d,
               ts_hour = field_int h, ts_minute = field_int mi, ts_second = field_int sec\<rparr>
     else Inl ValueError)"
proof -
  have sep: "\<And>c. is_digit c \<Longrightarrow> \<not> c = CHR ''-''" "\<And>c. is_digit c \<Longrightarrow> \<not> (c = CHR ''T'' \<or> c = CHR ''t'')"
      "\<And>c. is_digit c \<Longrightarrow> \<not> c = CHR '':''"
    using digit_not_sep by blast+
  show ?thesis
    unfolding strptime_fields_def
    using split_field_digits [OF assms(1) sep(1)] split_field_digits [OF assms(2) sep(1)]
      split_field_digits [OF assms(3) sep(2)] split_field_digits [OF assms(4) sep(3)]
      split_field_digits [OF assms(5) sep(3)]
    by simp
qed

section \<open>Lemmas: the calendar\<close>

lemma month_cases: "1 \<le> m \<Longrightarrow> m \<le> 12 \<Longrightarrow>
    m = 1 \<or> m = 2 \<or> m = 3 \<or> m = 4 \<or> m = 5 \<or> m = 6 \<or> m = 7 \<or> m = 8 \<or> m = 9 \<or> m = 10 \<or> m = 11 \<or> (m::int) = 12"
  by presburger

lemma days_in_month_pos: "1 \<le> m \<Longrightarrow> m \<le> 12 \<Longrightarrow> 28 \<le> days_in_month y m"
  by (drule (1) month_cases) (auto simp: days_in_month_def month_days_def)

section \<open>Properties\<close>

text \<open>
  C28: \<open>parse_ts\<close> reads back every valid timestamp written in the format
  \<open>%Y-%m-%dT%H:%M:%S\<close>, giving its UTC epoch seconds.
\<close>

theorem parse_ts_format:
  assumes "fields_ok t"
  shows "parse_ts (format_ts t) = Inr (epoch_seconds t)"
proof -
  have b: "1 \<le> ts_year t" "ts_year t \<le> 9999" "1 \<le> ts_month t" "ts_month t \<le> 12"
      "1 \<le> ts_day t" "ts_day t \<le> 31" "0 \<le> ts_hour t" "ts_hour t \<le> 23"
      "0 \<le> ts_minute t" "ts_minute t \<le> 59" "0 \<le> ts_second t" "ts_second t \<le> 59"
    using assms days_in_month_pos [of "ts_month t" "ts_year t"]
    by (auto simp: fields_ok_def days_in_month_def month_days_def nth_Cons' split: if_splits)
  have f: "format_ts t = pad4 (ts_year t) @ CHR ''-'' # pad2 (ts_month t) @ CHR ''-'' # pad2 (ts_day t)
      @ CHR ''T'' # pad2 (ts_hour t) @ CHR '':'' # pad2 (ts_minute t) @ CHR '':'' # pad2 (ts_second t)"
    by (simp add: format_ts_def)
  have "strptime_fields (format_ts t) = Inr t"
    unfolding f using b
    by (simp add: strptime_fields_digits digits_pad2 digits_pad4 re_pad2 re_pad4 field_int_pad2 field_int_pad4)
  then show ?thesis using assms by (simp add: parse_ts_def)
qed

theorem parse_ts_format_witness:
  "parse_ts (format_ts \<lparr>ts_year = 2024, ts_month = 2, ts_day = 29, ts_hour = 23, ts_minute = 59,
                        ts_second = 59\<rparr>)
   = Inr (epoch_seconds \<lparr>ts_year = 2024, ts_month = 2, ts_day = 29, ts_hour = 23, ts_minute = 59,
                         ts_second = 59\<rparr>)"
  by (rule parse_ts_format) (simp add: fields_ok_def days_in_month_def is_leap_def)

end
