(* ===== verification/Spec2Isabelle.thy ===== *)
theory Spec2Isabelle
  imports Sorted_Container Heap_Container File_Storage Timestamps
begin

text \<open>
  A verification library for the median containers of the repository
  \<open>CodeSignal_Practice_Industry_Coding_Framework\<close>.

  \<^bold>\<open>The program.\<close> \<open>progressive_filesystem/integer_container.py\<close> declares the
  interface \<open>IntegerContainer\<close>: \<open>add(value)\<close> returns the new size,
  \<open>delete(value)\<close> returns whether an occurrence was removed, \<open>get_median()\<close>
  returns the lower median or \<open>None\<close>. \<open>integer_container_impl.py\<close> implements it
  with a count per value and a sorted list of distinct keys. \<open>filesystem/container.py\<close>
  is a second implementation, the core of the design: two heaps (the smaller half as a
  negated max-heap \<open>_low\<close>, the larger half as \<open>_high\<close>) with lazy deletion through
  pending-deletion tallies, prune loops and a one-step rebalance.
  \<open>tests/level_2_tests.py\<close> drives a container with fixed call sequences; their
  outcomes are instances of the refinement theorems (C1, C2, C8) and are not restated.
  \<open>file_storage/simulation.py\<close> is an unrelated in-memory file store: a dispatcher
  replays string commands (upload, get, copy, search, each also at a timestamp, and
  rollback) against a dict of files with sizes and TTLs.
  The components interact only through the operation datatype \<open>op\<close>: a caller issues
  \<open>Add\<close>, \<open>Delete\<close> and \<open>GetMedian\<close> in order and reads the answers.

  \<^bold>\<open>Theories.\<close>
  \<^item> \<open>Prelude\<close>: Python exceptions (\<open>py_error\<close>), their propagation
    (\<open>py_bind\<close>), indexing with \<open>IndexError\<close> (\<open>nth_py\<close>),
    \<open>Counter\<close>/\<open>defaultdict(int)\<close>
    as \<open>int \<Rightarrow> int\<close> (\<open>counter_inc\<close> is \<open>c[v] += 1\<close>, \<open>counter_dec\<close> is
    \<open>c[v] -= 1\<close> with the \<open>del\<close> at zero, which no read can observe), and lemmas on
    sorted lists of multisets.
  \<^item> \<open>Median_Spec\<close>: operations and answers, \<open>median_of\<close> (the element at sorted
    position \<open>(n - 1) div 2\<close>), the interface contract \<open>iface_step\<close>, the
    \<open>container.py\<close> contract \<open>container_spec_step\<close>, \<open>run_steps\<close> (a call sequence
    stopping at the first exception), \<open>step_sim\<close> with \<open>run_steps_simulation\<close>
    (a one-step simulation gives equal runs) and \<open>median_of_split\<close> (the two-heap
    median fact).
  \<^item> \<open>Sorted_Container\<close>: \<open>IntegerContainerImpl\<close> as the record \<open>impl_state\<close>
    (\<open>_counts\<close>, \<open>_size\<close>, \<open>_keys\<close>); \<open>impl_add\<close>, \<open>impl_delete\<close>,
    \<open>impl_get_median\<close> with its loop \<open>median_scan\<close>; \<open>bisect_left\<close>,
    \<open>bisect_right\<close> and \<open>insort_right\<close> (\<open>bisect.insort\<close>) as the binary search
    \<open>bisect_loop\<close> of the \<open>bisect\<close> module (a \<open>function\<close> terminating by
    \<open>hi - lo\<close>, proved equal to \<open>takeWhile\<close> on sorted lists), and \<open>list_pop\<close>
    (\<open>list.pop\<close>, with its \<open>IndexError\<close>). \<open>impl_rel\<close> relates a state to
    the multiset it stores; \<open>impl_step_sim\<close> shows every method refines
    \<open>iface_step\<close>; \<open>median_scan_expand\<close> shows the loop against a direct index.
  \<^item> \<open>Heap_Container\<close>: \<open>Container\<close> as the record \<open>container\<close> (one field per
    attribute of \<open>__init__\<close>); \<open>heapq\<close> by its contract (a multiset whose top is its
    minimum; \<open>heappop\<close> and \<open>heap_top\<close> raise \<open>IndexError\<close> when empty);
    \<open>prune_low\<close>/\<open>prune_high\<close> as \<open>function\<close>s terminating by the heap size;
    \<open>rebalance\<close>, \<open>container_add\<close>, \<open>container_delete\<close>,
    \<open>container_get_median\<close>, with \<open>push_low\<close>, \<open>push_high\<close>, \<open>mark_low\<close>,
    \<open>mark_high\<close> naming the repeated update blocks of \<open>add\<close> and \<open>delete\<close>. The
    invariant \<open>heap_inv s L H\<close> is the design's I1 to I4 over the live multisets
    \<open>L\<close> and \<open>H\<close>, with \<open>pending_ok\<close> stating I4 for one half; the lemma groups
    show that pruning keeps it and exposes the live maximum (minimum),
    that \<open>rebalance_ok\<close> restores balance in one step, and that each method keeps it
    (\<open>container_add_ok\<close>, \<open>container_delete_present\<close>,
    \<open>container_get_median_ok\<close>). \<open>heap_reachable\<close> is the inductive set of
    states reachable by calls.
  \<^item> \<open>File_Storage\<close>: \<open>simulate_coding_framework\<close> with \<open>FileObj\<close> as the
    record \<open>file_obj\<close>, the dict \<open>db_files\<close> as an association list \<open>db\<close>
    (insertion order kept), the nested functions as \<open>is_alive\<close>, \<open>fs_upload\<close>,
    \<open>fs_get\<close>, \<open>fs_copy\<close>, \<open>fs_search\<close> (with \<open>matching\<close> and the raising loop
    \<open>sized_entries\<close>), \<open>fs_rollback\<close> and \<open>convert_file_size\<close> (the size regex
    read greedily by \<open>size_match\<close>); one loop iteration of the dispatcher is
    \<open>fs_step\<close> on the record \<open>fs_state\<close> (\<open>db_files\<close>, \<open>rollback_mode\<close>),
    the loop is \<open>fs_run\<close>, and \<open>fs_reachable\<close> is the inductive set of states it
    reaches, all with distinct names; \<open>search_spec\<close> is the search's contract on the
    dict as a map. The dispatcher takes the timestamp parser as a parameter;
    \<open>int(op[4])\<close> is \<open>py_int\<close>.
  \<^item> \<open>Timestamps\<close>: the module's \<open>parse_ts\<close> as CPython 3.11 runs it: the pattern
    \<open>_strptime\<close> compiles from \<open>%Y-%m-%dT%H:%M:%S\<close> (one alternation per field,
    \<open>re_year\<close> to \<open>re_second\<close>, each field the text before its separator, matched
    ignoring case with no text left over), the range checks of \<open>datetime\<close>
    (\<open>fields_ok\<close>) and the UTC timestamp from \<open>_ymd2ord\<close> (\<open>ymd2ord\<close>,
    \<open>days_before_year\<close>, \<open>days_before_month\<close>). \<open>simulate_coding_framework
    parse_ts\<close> is the module's function.
  \<^item> This theory: the agreement of the two implementations (\<open>implementations_agree\<close>).

  \<^bold>\<open>Properties.\<close> Refinement of the two contracts for every call sequence (C1, C2);
  the reachable-state invariant of the heap container (C3); the median loop against the
  sorted index (C4) and the heap median (C5); delete on both containers including the
  absent value (C6, C7); agreement of the implementations (C8); the empty-container
  error (C9); idempotence of \<open>get_median\<close> (C10); absence of \<open>IndexError\<close> (C11);
  size accounting of \<open>add\<close> (C12). For the file store: upload/get round trip (C13),
  TTL expiry (C14), the duplicate-upload error (C15), copy inheriting creation time and
  TTL (C16), the alphabetical search listing exactly the first ten live matching names
  (C17) and the search by size listing exactly the first ten by descending size then
  name (C18), both complete and ordered; independence of the dict order (C19), rollback
  restarting every TTL (C20), the size-string round trip for every unit of letters
  (C21), the \<open>ValueError\<close> an unparsable stored size causes in a later search (C22),
  upload then get through the dispatcher (C23), and the errors of an unknown or empty
  command (C24). The default bodies of \<open>IntegerContainer\<close> meet its contract exactly
  on call sequences without \<open>add\<close> (C25). Well-formedness of an
  \<open>IntegerContainerImpl\<close> state (\<open>impl_wf\<close>, equivalent to storing some multiset)
  is kept by every call, which never raises (C26); the file search implements its
  contract \<open>search_spec\<close> on the dict as a map (C27), on every store with distinct
  names, which every store the dispatcher reaches has (\<open>fs_reachable_distinct\<close>).
  \<open>parse_ts\<close> reads back every valid formatted timestamp (C28).

  \<^bold>\<open>Bounds and fuel.\<close> None are needed: Python integers are unbounded, so values,
  counts, sizes and timestamps are \<open>int\<close>; every loop is either structural
  (\<open>median_scan\<close>, \<open>run_steps\<close>, \<open>sized_entries\<close>, \<open>fs_run\<close>) or proved terminating (\<open>prune_low\<close>, \<open>prune_high\<close> by the size
  of their heap, \<open>bisect_loop\<close> by \<open>hi - lo\<close>).

  \<^bold>\<open>Not modelled.\<close> The binary-heap layout of \<open>heapq\<close> (library code; only its
  contract, a multiset whose top is the minimum, is used). Locale and the formats
  other than the one \<open>parse_ts\<close> uses, in \<open>_strptime\<close>. Characters beyond code
  point 255. The
  \<open>timeout_decorator\<close> harness of the tests.
\<close>

section \<open>The two implementations agree\<close>

lemma spec_runs_agree:
  "container_spec_run M ops =
     (case iface_run M ops of
        Inl e \<Rightarrow> Inl e
      | Inr as \<Rightarrow> if Median None \<in> set as then Inl RuntimeError else Inr (map container_view as))"
proof (induction ops arbitrary: M)
  case Nil
  then show ?case by simp
next
  case (Cons o1 ops)
  show ?case
  proof (cases o1)
    case (Add v)
    with Cons show ?thesis by (auto simp: total_step_def split: sum.splits)
  next
    case (Delete v)
    with Cons show ?thesis by (auto simp: total_step_def split: sum.splits)
  next
    case GetMedian
    with Cons show ?thesis
      by (auto simp: total_step_def median_of_def split: sum.splits)
  qed
qed

text \<open>
  C8: the two implementations of the repository agree. On every sequence of operations,
  \<open>Container\<close> gives the answers of \<open>IntegerContainerImpl\<close> (with \<open>None\<close> for
  \<open>add\<close>), except that where \<open>IntegerContainerImpl.get_median\<close> returns \<open>None\<close>,
  \<open>Container.get_median\<close> raises \<open>RuntimeError\<close> and the sequence stops.
\<close>

theorem implementations_agree:
  "run_steps container_step container_init ops =
     (case run_steps impl_step impl_init ops of
        Inl e \<Rightarrow> Inl e
      | Inr as \<Rightarrow> if Median None \<in> set as then Inl RuntimeError else Inr (map container_view as))"
  using run_steps_simulation [OF container_step_sim heap_rel_init, of ops]
    run_steps_simulation [OF impl_step_sim impl_rel_init, of ops] spec_runs_agree [of "{#}" ops]
  by simp

end
